theory Spec2Isabelle
  imports Complex_Main "HOL-Library.AList" "HOL-Library.Multiset" "HOL-Library.Char_ord"
    "HOL-Library.List_Lexorder"
begin

section \<open>Qt containers used by the FBX reader\<close>

text \<open>
  \<^verbatim>\<open>QString\<close> is a character list; the default-constructed (null) string compares equal
  to the empty string, so it is \<open>[]\<close>. \<^verbatim>\<open>operator<\<close> is the lexicographic order.
\<close>

type_synonym QString = string

text \<open>
  \<^verbatim>\<open>QMultiMap<QString, QString>\<close> as the list of its items, the items of one key most
  recently inserted first, which is the order \<^verbatim>\<open>values(key)\<close> returns them in.
\<close>

type_synonym QMultiMap = "(QString \<times> QString) list"

definition QMultiMap_insert :: "QString \<Rightarrow> QString \<Rightarrow> QMultiMap \<Rightarrow> QMultiMap" where
  "QMultiMap_insert k v m = (k, v) # m"

definition QMultiMap_values :: "QMultiMap \<Rightarrow> QString \<Rightarrow> QString list" where
  "QMultiMap_values m k = map snd (filter (\<lambda>e. fst e = k) m)"

definition QMultiMap_value :: "QMultiMap \<Rightarrow> QString \<Rightarrow> QString" where
  "QMultiMap_value m k = (case QMultiMap_values m k of [] \<Rightarrow> [] | v # _ \<Rightarrow> v)"

definition QMultiMap_contains :: "QMultiMap \<Rightarrow> QString \<Rightarrow> QString \<Rightarrow> bool" where
  "QMultiMap_contains m k v = ((k, v) \<in> set m)"

definition QMultiMap_remove :: "QString \<Rightarrow> QString \<Rightarrow> QMultiMap \<Rightarrow> QMultiMap" where
  "QMultiMap_remove k v m = filter (\<lambda>e. e \<noteq> (k, v)) m"

text \<open>\<^verbatim>\<open>take(key)\<close> removes the most recently inserted item of the key and returns its
  value, or a default-constructed value when the key has no item.\<close>

fun QMultiMap_take :: "QString \<Rightarrow> QMultiMap \<Rightarrow> QString \<times> QMultiMap" where
  "QMultiMap_take k [] = ([], [])"
| "QMultiMap_take k (e # m) =
     (if fst e = k then (snd e, m)
      else (case QMultiMap_take k m of (v, m') \<Rightarrow> (v, e # m')))"

text \<open>
  \<^verbatim>\<open>QHash<QString, T>\<close> as an association list with distinct keys, in the (unspecified)
  order in which the hash iterates.
\<close>

definition QHash_contains :: "(QString \<times> 'v) list \<Rightarrow> QString \<Rightarrow> bool" where
  "QHash_contains h k = (map_of h k \<noteq> None)"

section \<open>Models and the connection graph\<close>

text \<open>
  \<^verbatim>\<open>class FBXModel\<close>: the name and the parent index; the transform fields are floating
  point data that no traversal reads.
\<close>

record FBXModel =
  name :: QString
  parentIndex :: int

text \<open>\<^verbatim>\<open>models[id]\<close>: the stored model, a value-initialised one for an absent key.\<close>

definition models_at :: "(QString \<times> FBXModel) list \<Rightarrow> QString \<Rightarrow> FBXModel" where
  "models_at models key =
     (case map_of models key of Some m \<Rightarrow> m
      | None \<Rightarrow> \<lparr>FBXModel.name = [], parentIndex = 0\<rparr>)"

text \<open>
  \<^verbatim>\<open>getTopModelID\<close>: walk up the parent chain. Each round appends the current node to
  \<^verbatim>\<open>visitedNodes\<close> and moves to the first parent that is unvisited and a model. The
  function returns the top together with \<^verbatim>\<open>visitedNodes\<close>, whose length is the number
  of rounds.
\<close>

function getTopModelID_loop ::
  "QMultiMap \<Rightarrow> (QString \<times> FBXModel) list \<Rightarrow> QString \<Rightarrow> QString list
    \<Rightarrow> QString \<times> QString list" where
  "getTopModelID_loop connectionParentMap models topID visitedNodes =
     (case find (\<lambda>parentID. parentID \<notin> set (visitedNodes @ [topID])
                    \<and> QHash_contains models parentID)
             (QMultiMap_values connectionParentMap topID) of
        Some parentID \<Rightarrow>
          getTopModelID_loop connectionParentMap models parentID (visitedNodes @ [topID])
      | None \<Rightarrow> (topID, visitedNodes @ [topID]))"
  by pat_completeness auto
termination
proof (relation "measure (\<lambda>(pm, models, topID, visited).
                    card (fst ` set models - set visited - {topID}))", goal_cases)
  case 1
  show ?case by simp
next
  case (2 pm models topID visited p)
  then have "p \<notin> set (visited @ [topID]) \<and> QHash_contains models p"
    unfolding find_Some_iff by blast
  then have a: "p \<notin> set visited" "p \<noteq> topID" and b: "map_of models p \<noteq> None"
    by (simp_all add: QHash_contains_def)
  from b obtain m where "map_of models p = Some m" by blast
  then have "(p, m) \<in> set models" by (rule map_of_SomeD)
  then have c: "p \<in> fst ` set models" by force
  have "fst ` set models - set (visited @ [topID]) - {p}
          \<subset> fst ` set models - set visited - {topID}"
    using a c by auto
  then show ?case
    by (simp add: psubset_card_mono)
qed

definition getTopModelID ::
  "QMultiMap \<Rightarrow> (QString \<times> FBXModel) list \<Rightarrow> QString \<Rightarrow> QString" where
  "getTopModelID connectionParentMap models modelID =
     fst (getTopModelID_loop connectionParentMap models modelID [])"

text \<open>
  The locals of \<^verbatim>\<open>extractFBXGeometry\<close> that the connection passes read and change:
  the two connection maps (the members \<^verbatim>\<open>_connectionParentMap\<close> and
  \<^verbatim>\<open>_connectionChildMap\<close>), the models (their parent indices), the set of models not
  yet placed, and the output sequence.
\<close>

record Reader =
  connParentMap :: QMultiMap
  connChildMap :: QMultiMap
  models :: "(QString \<times> FBXModel) list"
  remainingModels :: "QString set"
  modelIDs :: "QString list"

text \<open>
  \<^verbatim>\<open>appendModelIDs\<close> and its loop over the children. The recursion is bounded by a
  fuel that every recursive call of \<^verbatim>\<open>appendModelIDs\<close> consumes; \<open>None\<close> is "out of
  fuel". \<^verbatim>\<open>models[childID]\<close> is only reached for a key of \<^verbatim>\<open>remainingModels\<close>, which
  are keys of \<^verbatim>\<open>models\<close>.
\<close>

fun appendModelIDs ::
  "nat \<Rightarrow> QString \<Rightarrow> QMultiMap \<Rightarrow> bool \<Rightarrow> Reader \<Rightarrow> Reader option"
and appendChildIDs ::
  "nat \<Rightarrow> int \<Rightarrow> QString list \<Rightarrow> QMultiMap \<Rightarrow> Reader \<Rightarrow> Reader option"
where
  "appendModelIDs 0 parentID connectionChildMap isRootNode s = None"
| "appendModelIDs (Suc fuel) parentID connectionChildMap isRootNode s =
     (let s1 = (if parentID \<in> remainingModels s
                then s\<lparr>modelIDs := modelIDs s @ [parentID],
                       remainingModels := remainingModels s - {parentID}\<rparr>
                else s);
          parentIdx = (if isRootNode then - 1 else int (length (modelIDs s1)) - 1)
      in appendChildIDs fuel parentIdx
           (QMultiMap_values connectionChildMap parentID) connectionChildMap s1)"
| "appendChildIDs fuel parentIdx [] connectionChildMap s = Some s"
| "appendChildIDs fuel parentIdx (childID # rest) connectionChildMap s =
     (if childID \<in> remainingModels s
         \<and> FBXModel.parentIndex (models_at (models s) childID) = - 1
      then (case appendModelIDs fuel childID connectionChildMap False
                   (s\<lparr>models := AList.update childID
                        ((models_at (models s) childID)\<lparr>FBXModel.parentIndex := parentIdx\<rparr>)
                        (models s)\<rparr>) of
              None \<Rightarrow> None
            | Some s' \<Rightarrow> appendChildIDs fuel parentIdx rest connectionChildMap s')
      else appendChildIDs fuel parentIdx rest connectionChildMap s)"

text \<open>
  The loop that precedes the ordering (one round per model, in hash order): the
  cluster reparenting, guarded by \<^verbatim>\<open>isARootNode\<close>, then "make sure the parent is in the
  child map", then the insertion into \<^verbatim>\<open>remainingModels\<close>. \<^verbatim>\<open>modelIDs\<close> is the vector
  declared just before the loop and not written in it.
\<close>

definition firstClusterID :: "QMultiMap \<Rightarrow> (QString \<times> 'c) list \<Rightarrow> QString \<Rightarrow> QString option" where
  "firstClusterID childMap clusters key =
     find (QHash_contains clusters)
       (concat (map (QMultiMap_values childMap) (QMultiMap_values childMap key)))"

definition prepareModel :: "(QString \<times> 'c) list \<Rightarrow> QString \<Rightarrow> Reader \<Rightarrow> Reader" where
  "prepareModel clusters key s =
     (let isARootNode = (QMultiMap_value (connParentMap s) key \<notin> set (modelIDs s));
          s1 = (if \<not> isARootNode then
                  (case firstClusterID (connChildMap s) clusters key of
                     None \<Rightarrow> s
                   | Some clusterID \<Rightarrow>
                       (let topID = getTopModelID (connParentMap s) (models s)
                                      (QMultiMap_value (connChildMap s) clusterID);
                            taken = QMultiMap_take key (connParentMap s)
                        in s\<lparr>connChildMap := QMultiMap_remove (fst taken) key (connChildMap s),
                              connParentMap := QMultiMap_insert key topID (snd taken)\<rparr>))
                else s);
          parent = QMultiMap_value (connParentMap s1) key;
          s2 = (if \<not> QMultiMap_contains (connChildMap s1) parent key
                then s1\<lparr>connChildMap := QMultiMap_insert parent key (connChildMap s1)\<rparr>
                else s1)
      in s2\<lparr>remainingModels := insert key (remainingModels s2)\<rparr>)"

definition prepareModels :: "(QString \<times> 'c) list \<Rightarrow> Reader \<Rightarrow> Reader" where
  "prepareModels clusters s = fold (prepareModel clusters) (map fst (models s)) s"

text \<open>
  The \<^verbatim>\<open>Connections\<close> block: each connection (child, parent) goes into both maps. The
  reader starts with the parsed models, all other locals empty.
\<close>

definition connect :: "(QString \<times> FBXModel) list \<Rightarrow> (QString \<times> QString) list \<Rightarrow> Reader" where
  "connect parsedModels connections =
     fold (\<lambda>(childID, parentID) s.
             s\<lparr>connParentMap := QMultiMap_insert childID parentID (connParentMap s),
               connChildMap := QMultiMap_insert parentID childID (connChildMap s)\<rparr>)
       connections
       \<lparr>connParentMap = [], connChildMap = [], models = parsedModels,
        remainingModels = {}, modelIDs = []\<rparr>"

text \<open>
  \<^verbatim>\<open>while (!remainingModels.isEmpty())\<close>: the smallest remaining ID, its top, and the
  append from the top's parent. The fuel bounds the rounds and is handed to
  \<^verbatim>\<open>appendModelIDs\<close>.
\<close>

fun orderLoop :: "nat \<Rightarrow> Reader \<Rightarrow> Reader option" where
  "orderLoop 0 s = None"
| "orderLoop (Suc fuel) s =
     (if remainingModels s = {} then Some s
      else (let first = Min (remainingModels s);
                topID = getTopModelID (connParentMap s) (models s) first
            in case appendModelIDs (Suc fuel) (QMultiMap_value (connParentMap s) topID)
                      (connChildMap s) True s of
                 None \<Rightarrow> None
               | Some s' \<Rightarrow> orderLoop fuel s'))"

text \<open>
  The \<^verbatim>\<open>Model\<close> objects: \<^verbatim>\<open>FBXModel model = { name, -1, ... }\<close> and
  \<^verbatim>\<open>models.insert(getID(object.properties), model)\<close>. The argument lists the (ID, name)
  pairs of the resulting hash in its iteration order.
\<close>

definition parseModels :: "(QString \<times> QString) list \<Rightarrow> (QString \<times> FBXModel) list" where
  "parseModels modelObjects =
     map (\<lambda>(modelID, modelName). (modelID, \<lparr>FBXModel.name = modelName, parentIndex = - 1\<rparr>))
       modelObjects"

definition orderModels ::
  "nat \<Rightarrow> (QString \<times> QString) list \<Rightarrow> (QString \<times> 'c) list \<Rightarrow> (QString \<times> QString) list
    \<Rightarrow> Reader option" where
  "orderModels fuel modelObjects clusters connections =
     orderLoop fuel (prepareModels clusters (connect (parseModels modelObjects) connections))"

section \<open>Invariants of the ordering pass\<close>

definition pidx :: "Reader \<Rightarrow> QString \<Rightarrow> int" where
  "pidx s k = FBXModel.parentIndex (models_at (models s) k)"

definition frame :: "Reader \<Rightarrow> Reader \<Rightarrow> bool" where
  "frame s s' \<longleftrightarrow>
     connParentMap s' = connParentMap s \<and> connChildMap s' = connChildMap s \<and>
     remainingModels s' \<subseteq> remainingModels s \<and>
     (\<exists>new. modelIDs s' = modelIDs s @ new \<and> distinct new \<and>
            set new = remainingModels s - remainingModels s') \<and>
     (\<forall>k. k \<notin> remainingModels s - remainingModels s' \<longrightarrow>
            models_at (models s') k = models_at (models s) k) \<and>
     fst ` set (models s) \<subseteq> fst ` set (models s') \<and>
     fst ` set (models s') \<subseteq> fst ` set (models s) \<union> remainingModels s"

definition fresh :: "Reader \<Rightarrow> bool" where
  "fresh s \<longleftrightarrow> (\<forall>k \<in> remainingModels s. pidx s k = - 1)"

definition placedDone :: "QMultiMap \<Rightarrow> QString set \<Rightarrow> Reader \<Rightarrow> bool" where
  "placedDone cm Q s \<longleftrightarrow> (\<forall>q \<in> Q. \<forall>c \<in> set (QMultiMap_values cm q). c \<notin> remainingModels s)"

definition placedOK :: "Reader \<Rightarrow> bool" where
  "placedOK s \<longleftrightarrow> (\<forall>i < length (modelIDs s).
      - 1 \<le> pidx s (modelIDs s ! i) \<and> pidx s (modelIDs s ! i) < int i)"

definition disj :: "Reader \<Rightarrow> bool" where
  "disj s \<longleftrightarrow> set (modelIDs s) \<inter> remainingModels s = {} \<and> distinct (modelIDs s)"

definition orderInv :: "Reader \<Rightarrow> bool" where
  "orderInv s \<longleftrightarrow>
     finite (remainingModels s) \<and> fresh s \<and> placedOK s \<and> disj s \<and>
     placedDone (connChildMap s) (set (modelIDs s)) s \<and>
     (\<forall>c p. (c, p) \<in> set (connParentMap s) \<longrightarrow> (p, c) \<in> set (connChildMap s)) \<and>
     (\<forall>k \<in> remainingModels s.
         (QMultiMap_value (connParentMap s) k, k) \<in> set (connChildMap s)) \<and>
     fst ` set (models s) = set (modelIDs s) \<union> remainingModels s"

section \<open>Joints\<close>

text \<open>
  \<^verbatim>\<open>class FBXJoint\<close>: the fields the joint loop computes without floating point.
  \<^verbatim>\<open>FBXGeometry\<close>: the joints and the name index (\<^verbatim>\<open>QHash<QString, int>\<close>).
\<close>

record FBXJoint =
  isFree :: bool
  freeLineage :: "int list"
  parentIndex :: int
  name :: QString

record FBXGeometry =
  joints :: "FBXJoint list"
  jointIndices :: "QString \<rightharpoonup> int"

text \<open>\<^verbatim>\<open>QVector::remove(i, count)\<close>.\<close>

definition QVector_remove :: "int \<Rightarrow> int \<Rightarrow> 'a list \<Rightarrow> 'a list" where
  "QVector_remove i n xs = take (nat i) xs @ drop (nat (i + n)) xs"

text \<open>
  The loop \<^verbatim>\<open>for (index = joint.parentIndex; index != -1; index = joints.at(index).parentIndex)\<close>
  with \<^verbatim>\<open>lastFreeIndex\<close> and \<^verbatim>\<open>joint.freeLineage\<close> as its state. \<open>None\<close>: the source does
  not return (\<^verbatim>\<open>at\<close> is out of range, or the walk runs forever).
\<close>

partial_function (option) lineageWalk ::
  "FBXJoint list \<Rightarrow> int \<Rightarrow> int \<Rightarrow> int list \<Rightarrow> (int \<times> int list) option" where
  "lineageWalk js index lastFreeIndex lineage =
     (if index = - 1 then Some (lastFreeIndex, lineage)
      else if index < 0 \<or> int (length js) \<le> index then None
      else lineageWalk js (FBXJoint.parentIndex (js ! nat index))
             (if isFree (js ! nat index) then int (length lineage) else lastFreeIndex)
             (lineage @ [index]))"

declare lineageWalk.simps [code]

text \<open>One round of \<^verbatim>\<open>foreach (const QString& modelID, modelIDs)\<close>: the joint of a model.\<close>

definition makeJoint :: "QString list \<Rightarrow> FBXJoint list \<Rightarrow> FBXModel \<Rightarrow> FBXJoint option" where
  "makeJoint freeJoints js model =
     (let free = (FBXModel.name model \<in> set freeJoints);
          jointIndex = int (length js)
      in case lineageWalk js (FBXModel.parentIndex model) (if free then 0 else - 1) [jointIndex] of
           None \<Rightarrow> None
         | Some (lastFreeIndex, lineage) \<Rightarrow>
             Some \<lparr>isFree = free,
                   freeLineage = QVector_remove (lastFreeIndex + 1)
                                   (int (length lineage) - lastFreeIndex - 1) lineage,
                   parentIndex = FBXModel.parentIndex model,
                   name = FBXModel.name model\<rparr>)"

fun convertModels ::
  "QString list \<Rightarrow> (QString \<times> FBXModel) list \<Rightarrow> QString list \<Rightarrow> FBXGeometry
    \<Rightarrow> FBXGeometry option" where
  "convertModels freeJoints ms [] geometry = Some geometry"
| "convertModels freeJoints ms (modelID # rest) geometry =
     (case makeJoint freeJoints (joints geometry) (models_at ms modelID) of
        None \<Rightarrow> None
      | Some joint \<Rightarrow>
          convertModels freeJoints ms rest
            (geometry\<lparr>joints := joints geometry @ [joint],
                      jointIndices := (jointIndices geometry)
                        (FBXModel.name (models_at ms modelID) \<mapsto> int (length (joints geometry)) + 1)\<rparr>))"

text \<open>The connection passes followed by the joint loop.\<close>

definition extractJoints ::
  "nat \<Rightarrow> (QString \<times> QString) list \<Rightarrow> (QString \<times> 'c) list \<Rightarrow> (QString \<times> QString) list
    \<Rightarrow> QString list \<Rightarrow> FBXGeometry option" where
  "extractJoints fuel modelObjects clusters connections freeJoints =
     (case orderModels fuel modelObjects clusters connections of
        None \<Rightarrow> None
      | Some s \<Rightarrow> convertModels freeJoints (models s) (modelIDs s)
                   \<lparr>joints = [], jointIndices = Map.empty\<rparr>)"

text \<open>
  The chain the lineage claim speaks of: a joint's ancestors, by parent index, up to
  the root; and the cut after the last entry that is flagged free.
\<close>

fun ancestors :: "FBXJoint list \<Rightarrow> nat \<Rightarrow> int \<Rightarrow> int list" where
  "ancestors js 0 index = []"
| "ancestors js (Suc n) index =
     (if index = - 1 then [] else index # ancestors js n (FBXJoint.parentIndex (js ! nat index)))"

definition cutAfterLastFree :: "(int \<Rightarrow> bool) \<Rightarrow> int list \<Rightarrow> int list" where
  "cutAfterLastFree free xs = rev (dropWhile (\<lambda>i. \<not> free i) (rev xs))"

section \<open>Invariants of the joint loop\<close>

definition okParents :: "FBXJoint list \<Rightarrow> bool" where
  "okParents js \<longleftrightarrow> (\<forall>i < length js.
      - 1 \<le> FBXJoint.parentIndex (js ! i) \<and> FBXJoint.parentIndex (js ! i) < int i)"

definition lineageOf :: "FBXJoint list \<Rightarrow> nat \<Rightarrow> int list" where
  "lineageOf js i =
     cutAfterLastFree (\<lambda>k. isFree (js ! nat k))
       (int i # ancestors js i (FBXJoint.parentIndex (js ! i)))"

definition jointsFrom ::
  "QString list \<Rightarrow> (QString \<times> FBXModel) list \<Rightarrow> QString list \<Rightarrow> FBXGeometry \<Rightarrow> bool" where
  "jointsFrom fj ms ids g \<longleftrightarrow>
     length (joints g) \<le> length ids \<and> okParents (joints g) \<and>
     (\<forall>i < length (joints g).
        FBXJoint.parentIndex (joints g ! i) = FBXModel.parentIndex (models_at ms (ids ! i)) \<and>
        FBXJoint.name (joints g ! i) = FBXModel.name (models_at ms (ids ! i)) \<and>
        isFree (joints g ! i) = (FBXModel.name (models_at ms (ids ! i)) \<in> set fj) \<and>
        freeLineage (joints g ! i) = lineageOf (joints g) i) \<and>
     (\<forall>i < length (joints g).
        (\<forall>j. i < j \<and> j < length (joints g)
              \<longrightarrow> FBXJoint.name (joints g ! j) \<noteq> FBXJoint.name (joints g ! i))
        \<longrightarrow> jointIndices g (FBXJoint.name (joints g ! i)) = Some (int i + 1)) \<and>
     (\<forall>nm. nm \<notin> FBXJoint.name ` set (joints g) \<longrightarrow> jointIndices g nm = None)"

section \<open>Meshes: cluster binding\<close>

text \<open>
  Reads out of range (\<^verbatim>\<open>QList::at\<close>, \<^verbatim>\<open>QVector::operator[]\<close>) fail an assertion of the
  container, or are undefined behaviour where assertions are compiled out: the
  function does not return its result.
\<close>

datatype error = IndexOutOfRange

definition QList_at :: "'a list \<Rightarrow> int \<Rightarrow> error + 'a" where
  "QList_at xs i = (if 0 \<le> i \<and> i < int (length xs) then Inr (xs ! nat i) else Inl IndexOutOfRange)"

text \<open>\<^verbatim>\<open>foreach\<close> over a list with a body that can fail.\<close>

fun foreachE :: "('a \<Rightarrow> 's \<Rightarrow> error + 's) \<Rightarrow> 'a list \<Rightarrow> 's \<Rightarrow> error + 's" where
  "foreachE body [] s = Inr s"
| "foreachE body (x # xs) s =
     (case body x s of Inl e \<Rightarrow> Inl e | Inr s' \<Rightarrow> foreachE body xs s')"

text \<open>\<^verbatim>\<open>QVector::indexOf\<close>: the first position of the value, or \<open>-1\<close>.\<close>

definition QVector_indexOf :: "'a list \<Rightarrow> 'a \<Rightarrow> int" where
  "QVector_indexOf xs x =
     (if x \<in> set xs then int (length (takeWhile (\<lambda>y. y \<noteq> x) xs)) else - 1)"

text \<open>\<^verbatim>\<open>class FBXCluster\<close>: the joint index; the inverse bind matrix is floating point.\<close>

record FBXCluster =
  jointIndex :: int

text \<open>
  "find the clusters with which the mesh is associated": the clusters two steps below
  the mesh in the child map, each appended with the index of its joint (\<open>0\<close> when the
  joint is not in the model list), followed by the write to
  \<^verbatim>\<open>geometry.joints[fbxCluster.jointIndex]\<close>.
\<close>

fun appendClusters ::
  "QMultiMap \<Rightarrow> QString list \<Rightarrow> nat \<Rightarrow> QString list \<Rightarrow> QString list \<times> FBXCluster list
    \<Rightarrow> error + (QString list \<times> FBXCluster list)" where
  "appendClusters childMap orderedIDs numJoints [] found = Inr found"
| "appendClusters childMap orderedIDs numJoints (clusterID # rest) found =
     (let jointID = QMultiMap_value childMap clusterID;
          position = QVector_indexOf orderedIDs jointID;
          fbxCluster = \<lparr>jointIndex = (if position = - 1 then 0 else position)\<rparr>
      in if int numJoints \<le> jointIndex fbxCluster then Inl IndexOutOfRange
         else appendClusters childMap orderedIDs numJoints rest
                (fst found @ [clusterID], snd found @ [fbxCluster]))"

text \<open>
  \<^verbatim>\<open>geometry.joints[jointIndex]\<close>: the read of a joint. The joint loop appends one joint
  for each entry of the ordered model list, so \<open>numJoints\<close> is the length of that list.
\<close>

definition joints_at :: "nat \<Rightarrow> int \<Rightarrow> error + unit" where
  "joints_at numJoints i =
     (if 0 \<le> i \<and> i < int numJoints then Inr () else Inl IndexOutOfRange)"

text \<open>
  The binding of one mesh (key \<open>meshKey\<close> of the mesh table), up to the append to
  \<^verbatim>\<open>geometry.meshes\<close>: the owning model, the clusters found, "if we don't have a skinned
  joint, parent to the model itself", and then the reads that stand between the
  binding and the append. With more than one cluster ID these are
  \<^verbatim>\<open>extracted.mesh.clusters.at(i)\<close> and \<^verbatim>\<open>geometry.joints[jointIndex]\<close> for each cluster ID
  (the weights of that branch are \<open>skinWeights\<close> below); otherwise, "this is a
  single-mesh joint", it is \<^verbatim>\<open>geometry.joints[jointIndex]\<close> for the first cluster.
  \<^verbatim>\<open>shapeVertices\<close> has \<^verbatim>\<open>max(1, joints.size())\<close> entries, so its read is in range
  whenever the read of the joint is. \<open>meshClusters\<close> is the cluster list the mesh
  arrives with from the mesh extraction; the result is the list of cluster IDs and
  the cluster list of the mesh.
\<close>

definition bindMesh ::
  "(QString \<times> FBXModel) list \<Rightarrow> (QString \<times> 'c) list \<Rightarrow> QMultiMap \<Rightarrow> QMultiMap
    \<Rightarrow> QString list \<Rightarrow> nat \<Rightarrow> QString \<Rightarrow> FBXCluster list
    \<Rightarrow> error + (QString list \<times> FBXCluster list)" where
  "bindMesh ms clusters parentMap childMap orderedIDs numJoints meshKey meshClusters =
     (let modelID = (if QHash_contains ms meshKey then meshKey
                     else QMultiMap_value parentMap meshKey)
      in case appendClusters childMap orderedIDs numJoints
                (filter (QHash_contains clusters)
                   (concat (map (QMultiMap_values childMap)
                              (QMultiMap_values childMap meshKey))))
                ([], meshClusters) of
           Inl e \<Rightarrow> Inl e
         | Inr (clusterIDs, cs) \<Rightarrow>
             (let bound = (if cs = []
                           then cs @ [\<lparr>jointIndex =
                                  (let position = QVector_indexOf orderedIDs modelID
                                   in if position = - 1 then 0 else position)\<rparr>]
                           else cs)
              in case (if 1 < length clusterIDs
                       then foreachE (\<lambda>i u. case QList_at bound (int i) of
                                                Inl e \<Rightarrow> Inl e
                                              | Inr fbxCluster \<Rightarrow>
                                                  joints_at numJoints (jointIndex fbxCluster))
                              [0 ..< length clusterIDs] ()
                       else joints_at numJoints (jointIndex (hd bound))) of
                   Inl e \<Rightarrow> Inl e
                 | Inr u \<Rightarrow> Inr (clusterIDs, bound)))"
section \<open>Meshes: skin weights\<close>

text \<open>
  \<^verbatim>\<open>class Cluster\<close>: vertex indices and their weights (\<^verbatim>\<open>QVector<double>\<close>); the bind
  matrix is left out. A \<^verbatim>\<open>double\<close> and a \<^verbatim>\<open>float\<close> are modelled by the real number
  they denote (finite values only, no NaN), so the comparisons of floats are exact.
  The conversion of a \<^verbatim>\<open>double\<close> to \<^verbatim>\<open>float\<close> is the parameter \<open>toFloat\<close> of the
  accumulation.
\<close>

record Cluster =
  indices :: "int list"
  weights :: "real list"

text \<open>\<^verbatim>\<open>clusters[clusterID]\<close>, a default-constructed cluster for an absent key.\<close>

definition clusters_at :: "(QString \<times> Cluster) list \<Rightarrow> QString \<Rightarrow> Cluster" where
  "clusters_at clusters clusterID =
     (case map_of clusters clusterID of Some c \<Rightarrow> c | None \<Rightarrow> \<lparr>indices = [], weights = []\<rparr>)"

text \<open>
  \<^verbatim>\<open>QMultiHash<int, int>\<close> (\<^verbatim>\<open>newIndices\<close>, old vertex index to new vertex indices) as
  the list of its items; the loop from \<^verbatim>\<open>constFind(oldIndex)\<close> visits the values of the
  key.
\<close>

definition QMultiHash_values :: "(int \<times> int) list \<Rightarrow> int \<Rightarrow> int list" where
  "QMultiHash_values h k = map snd (filter (\<lambda>e. fst e = k) h)"

abbreviation WEIGHTS_PER_VERTEX :: nat where
  "WEIGHTS_PER_VERTEX \<equiv> 4"

definition FLT_MAX :: real where
  "FLT_MAX = 340282346638528859811704183484516925440"

text \<open>
  The loop \<^verbatim>\<open>for (; k < WEIGHTS_PER_VERTEX; k++)\<close> without its write: it stops at the
  first slot whose accumulator is \<open>0\<close> (\<^verbatim>\<open>break\<close>), and tracks the lowest weight seen
  and its slot. The result is the final \<open>k\<close>, \<^verbatim>\<open>lowestIndex\<close> and \<^verbatim>\<open>lowestWeight\<close>.
\<close>

function scanSlots :: "real list \<Rightarrow> nat \<Rightarrow> nat \<Rightarrow> int \<Rightarrow> real \<Rightarrow> nat \<times> int \<times> real" where
  "scanSlots weightAccumulators weightIndex k lowestIndex lowestWeight =
     (if k < WEIGHTS_PER_VERTEX then
        (if weightAccumulators ! (weightIndex + k) = 0 then (k, lowestIndex, lowestWeight)
         else if weightAccumulators ! (weightIndex + k) < lowestWeight
         then scanSlots weightAccumulators weightIndex (Suc k) (int k)
                (weightAccumulators ! (weightIndex + k))
         else scanSlots weightAccumulators weightIndex (Suc k) lowestIndex lowestWeight)
      else (k, lowestIndex, lowestWeight))"
  by pat_completeness auto
termination
  by (relation "measure (\<lambda>(a, wi, k, li, lw). WEIGHTS_PER_VERTEX - k)") auto

declare scanSlots.simps [simp del]

text \<open>
  One (new vertex, cluster, weight) triple: the scan, then the write into the empty
  slot found, or over the lowest slot when all are filled and the weight is greater.
  The state is \<^verbatim>\<open>weightAccumulators\<close> and \<^verbatim>\<open>clusterIndices\<close>, both of
  \<^verbatim>\<open>numClusterIndices\<close> entries.
\<close>

definition storeWeight ::
  "int \<Rightarrow> real \<Rightarrow> int \<Rightarrow> real list \<times> int list \<Rightarrow> error + (real list \<times> int list)" where
  "storeWeight i weight newIndex st =
     (if newIndex < 0 \<or> int (length (fst st)) < newIndex * 4 + 4 then Inl IndexOutOfRange
      else
        (let weightIndex = nat newIndex * WEIGHTS_PER_VERTEX;
             scanned = scanSlots (fst st) weightIndex 0 (- 1) FLT_MAX;
             k = fst scanned;
             lowestIndex = fst (snd scanned);
             lowestWeight = snd (snd scanned)
         in if k < WEIGHTS_PER_VERTEX
            then Inr ((fst st)[weightIndex + k := weight], (snd st)[weightIndex + k := i])
            else if weight > lowestWeight
            then (if int weightIndex + lowestIndex < 0 then Inl IndexOutOfRange
                  else Inr ((fst st)[nat (int weightIndex + lowestIndex) := weight],
                            (snd st)[nat (int weightIndex + lowestIndex) := i]))
            else Inr st))"

text \<open>
  The loops over the entries \<open>j\<close> of one cluster (with the fan-out through
  \<^verbatim>\<open>newIndices\<close>) and over the clusters \<open>i\<close> of the mesh.
  \<^verbatim>\<open>float weight = cluster.weights.at(j)\<close> narrows the weight before it is compared
  and stored.
\<close>

definition accumulateCluster ::
  "(real \<Rightarrow> real) \<Rightarrow> (int \<times> int) list \<Rightarrow> Cluster \<Rightarrow> int \<Rightarrow> real list \<times> int list
    \<Rightarrow> error + (real list \<times> int list)" where
  "accumulateCluster toFloat newIndices cluster i st =
     foreachE (\<lambda>j st'.
                 case QList_at (weights cluster) (int j) of
                   Inl e \<Rightarrow> Inl e
                 | Inr weight \<Rightarrow>
                     foreachE (storeWeight i (toFloat weight))
                       (QMultiHash_values newIndices (indices cluster ! j)) st')
       [0 ..< length (indices cluster)] st"

definition accumulateWeights ::
  "(real \<Rightarrow> real) \<Rightarrow> (int \<times> int) list \<Rightarrow> (QString \<times> Cluster) list \<Rightarrow> QString list \<Rightarrow> nat
    \<Rightarrow> error + (real list \<times> int list)" where
  "accumulateWeights toFloat newIndices clusters clusterIDs numVertices =
     foreachE (\<lambda>i. accumulateCluster toFloat newIndices
                      (clusters_at clusters (clusterIDs ! i)) (int i))
       [0 ..< length clusterIDs]
       (replicate (numVertices * WEIGHTS_PER_VERTEX) 0,
        replicate (numVertices * WEIGHTS_PER_VERTEX) 0)"

text \<open>
  What the weight claims speak of: the (new vertex, cluster, narrowed weight) triples
  in the order of the loops, the (weight, cluster) pairs that reach one vertex, and
  the four slots of a vertex in a flat array.
\<close>

definition fannedTriples ::
  "(real \<Rightarrow> real) \<Rightarrow> (int \<times> int) list \<Rightarrow> (QString \<times> Cluster) list \<Rightarrow> QString list
    \<Rightarrow> (int \<times> int \<times> real) list" where
  "fannedTriples toFloat newIndices clusters clusterIDs =
     concat (map (\<lambda>i. concat (map (\<lambda>j.
         map (\<lambda>newIndex. (newIndex, int i,
                           toFloat (weights (clusters_at clusters (clusterIDs ! i)) ! j)))
           (QMultiHash_values newIndices (indices (clusters_at clusters (clusterIDs ! i)) ! j)))
         [0 ..< length (indices (clusters_at clusters (clusterIDs ! i)))]))
       [0 ..< length clusterIDs])"

definition influences :: "(int \<times> int \<times> real) list \<Rightarrow> nat \<Rightarrow> (real \<times> int) list" where
  "influences triples v =
     map (\<lambda>t. (snd (snd t), fst (snd t))) (filter (\<lambda>t. fst t = int v) triples)"

definition slots :: "'a list \<Rightarrow> nat \<Rightarrow> 'a list" where
  "slots xs v = take WEIGHTS_PER_VERTEX (drop (v * WEIGHTS_PER_VERTEX) xs)"

section \<open>Skin weights: invariants\<close>

text \<open>
  The four slots \<open>A\<close> (weights) and \<open>I\<close> (cluster indices) of a vertex hold the
  highest of the pairs \<open>ps\<close> seen so far: with some left-over pairs \<open>rest\<close> they are
  exactly \<open>ps\<close> and four empty slots \<open>(0, 0)\<close>, and no left-over pair is heavier than
  a slot.
\<close>

definition topInv :: "real list \<Rightarrow> int list \<Rightarrow> (real \<times> int) list \<Rightarrow> bool" where
  "topInv A I ps \<longleftrightarrow>
     (\<exists>rest. mset (zip A I) + rest = mset ps + replicate_mset 4 (0, 0) \<and>
             (\<forall>r \<in># rest. \<forall>s \<in> set A. fst r \<le> s))"

definition wfState :: "real list \<times> int list \<Rightarrow> nat \<Rightarrow> bool" where
  "wfState st n \<longleftrightarrow> length (fst st) = n * 4 \<and> length (snd st) = n * 4"

definition vertexInv :: "real list \<times> int list \<Rightarrow> nat \<Rightarrow> (real \<times> int) list \<Rightarrow> bool" where
  "vertexInv st v ps \<longleftrightarrow>
     (\<forall>x \<in> set (slots (fst st) v). 0 \<le> x) \<and> topInv (slots (fst st) v) (slots (snd st) v) ps"

definition storeTriple ::
  "int \<times> int \<times> real \<Rightarrow> real list \<times> int list \<Rightarrow> error + (real list \<times> int list)" where
  "storeTriple t st = storeWeight (fst (snd t)) (snd (snd t)) (fst t) st"

text \<open>
  What the accumulation needs of its input to run through: every cluster has a
  weight for each of its indices (\<^verbatim>\<open>cluster.weights.at(j)\<close>), every narrowed weight is
  a float that is not negative (at most \<^verbatim>\<open>FLT_MAX\<close>), and every new vertex index
  is a vertex of the mesh.
\<close>

definition wellFormedSkin ::
  "(real \<Rightarrow> real) \<Rightarrow> (int \<times> int) list \<Rightarrow> (QString \<times> Cluster) list \<Rightarrow> QString list \<Rightarrow> nat
    \<Rightarrow> bool" where
  "wellFormedSkin toFloat newIndices clusters clusterIDs numVertices \<longleftrightarrow>
     (\<forall>clusterID \<in> set clusterIDs.
        length (indices (clusters_at clusters clusterID))
          \<le> length (weights (clusters_at clusters clusterID)) \<and>
        (\<forall>j \<in> set [0 ..< length (indices (clusters_at clusters clusterID))].
           0 \<le> toFloat (weights (clusters_at clusters clusterID) ! j) \<and>
           toFloat (weights (clusters_at clusters clusterID) ! j) \<le> FLT_MAX \<and>
           (\<forall>newIndex \<in> set (QMultiHash_values newIndices
                                 (indices (clusters_at clusters clusterID) ! j)).
              0 \<le> newIndex \<and> newIndex < int numVertices)))"

section \<open>Meshes: normalization of the skin weights\<close>

text \<open>
  Single-precision arithmetic. A \<^verbatim>\<open>float\<close> operation gives the exact result rounded to
  the nearest number with a significand of 24 bits, ties to the even significand
  (IEEE 754 binary32, each operation rounded on its own). \<open>float32\<close> is that rounding
  for results in the normal range: the exponent is not bounded, so there is no
  overflow to infinity and there are no subnormal numbers. The conversion of a
  \<^verbatim>\<open>double\<close> to \<^verbatim>\<open>float\<close> is the same rounding.
\<close>

definition roundToEven :: "real \<Rightarrow> int" where
  "roundToEven q =
     (if q - of_int \<lfloor>q\<rfloor> < 1 / 2 then \<lfloor>q\<rfloor>
      else if 1 / 2 < q - of_int \<lfloor>q\<rfloor> then \<lfloor>q\<rfloor> + 1
      else if even \<lfloor>q\<rfloor> then \<lfloor>q\<rfloor> else \<lfloor>q\<rfloor> + 1)"

definition float32 :: "real \<Rightarrow> real" where
  "float32 x =
     (if x = 0 then 0
      else of_int (roundToEven (x / 2 powr (of_int \<lfloor>log 2 \<bar>x\<bar>\<rfloor> - 23)))
             * 2 powr (of_int \<lfloor>log 2 \<bar>x\<bar>\<rfloor> - 23))"

text \<open>
  "normalize and compress to 16-bits". \<^verbatim>\<open>ALMOST_HALF\<close> is the float \<^verbatim>\<open>0.499f\<close>. The cast
  \<^verbatim>\<open>(uint16_t)\<close> of a float truncates towards zero; the result is kept modulo \<open>2^16\<close>.
  The total is summed from the first accumulator on, \<^verbatim>\<open>(float)(UINT16_MAX)\<close> is exact,
  and the quotient, the product and the sum with \<^verbatim>\<open>ALMOST_HALF\<close> each round.
\<close>

definition ALMOST_HALF :: real where
  "ALMOST_HALF = 8371831 / 16777216"

definition UINT16_MAX :: nat where
  "UINT16_MAX = 65535"

definition uint16_of_float :: "real \<Rightarrow> nat" where
  "uint16_of_float x = nat ((if 0 \<le> x then \<lfloor>x\<rfloor> else \<lceil>x\<rceil>) mod 65536)"

definition normalizeVertex :: "real list \<Rightarrow> nat \<Rightarrow> nat list \<Rightarrow> nat list" where
  "normalizeVertex weightAccumulators i clusterWeights =
     (let j = i * WEIGHTS_PER_VERTEX;
          totalWeight = fold (\<lambda>k total. float32 (total + weightAccumulators ! k))
                          [j + 1 ..< j + WEIGHTS_PER_VERTEX] (weightAccumulators ! j)
      in if totalWeight > 0
         then (let weightScalingFactor = float32 (real UINT16_MAX / totalWeight)
               in fold (\<lambda>k cw. cw[k := uint16_of_float
                                   (float32 (float32 (weightScalingFactor * weightAccumulators ! k)
                                             + ALMOST_HALF))])
                    [j ..< j + WEIGHTS_PER_VERTEX] clusterWeights)
         else clusterWeights)"

definition normalizeWeights :: "real list \<Rightarrow> nat \<Rightarrow> nat list" where
  "normalizeWeights weightAccumulators numVertices =
     fold (normalizeVertex weightAccumulators) [0 ..< numVertices]
       (replicate (numVertices * WEIGHTS_PER_VERTEX) 0)"

text \<open>
  The multi-cluster branch: accumulation of the narrowed weights, then normalization.
  The result is \<^verbatim>\<open>clusterIndices\<close> and \<^verbatim>\<open>clusterWeights\<close>.
\<close>

definition skinWeights ::
  "(int \<times> int) list \<Rightarrow> (QString \<times> Cluster) list \<Rightarrow> QString list \<Rightarrow> nat
    \<Rightarrow> error + (int list \<times> nat list)" where
  "skinWeights newIndices clusters clusterIDs numVertices =
     (case accumulateWeights float32 newIndices clusters clusterIDs numVertices of
        Inl e \<Rightarrow> Inl e
      | Inr st \<Rightarrow> Inr (snd st, normalizeWeights (fst st) numVertices))"

text \<open>
  The total of a vertex as the code sums it, the value stored for slot \<open>k\<close> of vertex
  \<open>i\<close>, and the weights for which no operation of the normalization leaves the normal
  range of \<^verbatim>\<open>float\<close>: each narrowed weight is \<open>0\<close> or lies between \<open>1 / 2 ^ 40\<close> and \<open>2 ^ 40\<close>.
\<close>

definition totalOf :: "real list \<Rightarrow> nat \<Rightarrow> real" where
  "totalOf acc i =
     float32 (float32 (float32 (acc ! (i * 4) + acc ! (i * 4 + 1)) + acc ! (i * 4 + 2))
              + acc ! (i * 4 + 3))"

definition stored :: "real list \<Rightarrow> nat \<Rightarrow> nat \<Rightarrow> nat" where
  "stored acc i k =
     uint16_of_float (float32 (float32 (float32 (real UINT16_MAX / totalOf acc i) * acc ! k)
                               + ALMOST_HALF))"

definition normalRange :: "(QString \<times> Cluster) list \<Rightarrow> QString list \<Rightarrow> bool" where
  "normalRange clusters clusterIDs \<longleftrightarrow>
     (\<forall>clusterID \<in> set clusterIDs.
        \<forall>w \<in> set (weights (clusters_at clusters clusterID)).
          float32 w = 0 \<or> (1 / 2 ^ 40 \<le> float32 w \<and> float32 w \<le> 2 ^ 40))"

section \<open>The node tree and the header scan\<close>

text \<open>
  \<^verbatim>\<open>class FBXNode\<close>: a name, a property list and children. The property values
  (\<^verbatim>\<open>QVariant\<close>) are a type parameter; their conversion to a string and the comparison
  with \<^verbatim>\<open>APPLICATION_NAME\<close> are parameters of the scan.
\<close>

datatype 'v FBXNode = FBXNode (name: string) (properties: "'v list") (children: "'v FBXNode list")

record Header =
  author :: QString
  applicationName :: QString

text \<open>
  The \<^verbatim>\<open>FBXHeaderExtension\<close> branch of the loop over the children of the root, innermost
  loop bodies first. The author is read with \<^verbatim>\<open>properties.at(0)\<close>; the application name
  only after the test \<^verbatim>\<open>properties.size() >= 5\<close>.
\<close>

definition scanMetaData :: "('v \<Rightarrow> QString) \<Rightarrow> 'v FBXNode \<Rightarrow> Header \<Rightarrow> error + Header" where
  "scanMetaData toString subsubobject h =
     (if FBXNode.name subsubobject = ''Author''
      then (case QList_at (properties subsubobject) 0 of
              Inl e \<Rightarrow> Inl e
            | Inr v \<Rightarrow> Inr (h\<lparr>author := toString v\<rparr>))
      else Inr h)"

definition scanProperties70 ::
  "('v \<Rightarrow> QString) \<Rightarrow> ('v \<Rightarrow> bool) \<Rightarrow> 'v FBXNode \<Rightarrow> Header \<Rightarrow> error + Header" where
  "scanProperties70 toString isApplicationName subsubobject h =
     (if FBXNode.name subsubobject = ''P'' \<and> 5 \<le> length (properties subsubobject)
      then (case QList_at (properties subsubobject) 0 of
              Inl e \<Rightarrow> Inl e
            | Inr v0 \<Rightarrow>
                if isApplicationName v0
                then (case QList_at (properties subsubobject) 4 of
                        Inl e \<Rightarrow> Inl e
                      | Inr v4 \<Rightarrow> Inr (h\<lparr>applicationName := toString v4\<rparr>))
                else Inr h)
      else Inr h)"

definition scanSceneInfo ::
  "('v \<Rightarrow> QString) \<Rightarrow> ('v \<Rightarrow> bool) \<Rightarrow> 'v FBXNode \<Rightarrow> Header \<Rightarrow> error + Header" where
  "scanSceneInfo toString isApplicationName subobject h =
     (if FBXNode.name subobject = ''MetaData''
      then foreachE (scanMetaData toString) (children subobject) h
      else if FBXNode.name subobject = ''Properties70''
      then foreachE (scanProperties70 toString isApplicationName) (children subobject) h
      else Inr h)"

definition scanHeaderExtension ::
  "('v \<Rightarrow> QString) \<Rightarrow> ('v \<Rightarrow> bool) \<Rightarrow> 'v FBXNode \<Rightarrow> Header \<Rightarrow> error + Header" where
  "scanHeaderExtension toString isApplicationName child h =
     foreachE (\<lambda>object h'.
                 if FBXNode.name object = ''SceneInfo''
                 then foreachE (scanSceneInfo toString isApplicationName) (children object) h'
                 else Inr h')
       (children child) h"

text \<open>
  The loop over the children of the root, as far as the header is concerned: the
  other branches (\<^verbatim>\<open>GlobalSettings\<close>, \<^verbatim>\<open>Objects\<close>, \<^verbatim>\<open>Connections\<close>) do not write the
  header and nodes of any other name are skipped. A failed read in this scan ends the
  whole extraction; the other branches have reads of their own, which are not part of
  this function.
\<close>

definition extractHeader ::
  "('v \<Rightarrow> QString) \<Rightarrow> ('v \<Rightarrow> bool) \<Rightarrow> 'v FBXNode \<Rightarrow> error + Header" where
  "extractHeader toString isApplicationName node =
     foreachE (\<lambda>child h.
                 if FBXNode.name child = ''FBXHeaderExtension''
                 then scanHeaderExtension toString isApplicationName child h
                 else Inr h)
       (children node) \<lparr>author = [], applicationName = []\<rparr>"

section \<open>The ordering pass: frame, fuel and invariants\<close>

lemma QMultiMap_values_iff: "c \<in> set (QMultiMap_values m k) \<longleftrightarrow> (k, c) \<in> set m"
  by (auto simp: QMultiMap_values_def image_iff)

lemma models_at_update:
  "models_at (AList.update k v al) k' = (if k' = k then v else models_at al k')"
  by (simp add: models_at_def update_conv')

lemma frame_refl: "frame s s"
  by (simp add: frame_def)

lemma frameD:
  assumes "frame s s'"
  shows "connParentMap s' = connParentMap s" "connChildMap s' = connChildMap s"
    "remainingModels s' \<subseteq> remainingModels s"
    "\<exists>new. modelIDs s' = modelIDs s @ new \<and> distinct new \<and>
            set new = remainingModels s - remainingModels s'"
    "\<And>k. k \<notin> remainingModels s - remainingModels s' \<Longrightarrow>
            models_at (models s') k = models_at (models s) k"
    "fst ` set (models s) \<subseteq> fst ` set (models s')"
    "fst ` set (models s') \<subseteq> fst ` set (models s) \<union> remainingModels s"
  using assms unfolding frame_def by simp_all

lemma frameI:
  assumes "connParentMap s' = connParentMap s" "connChildMap s' = connChildMap s"
    "remainingModels s' \<subseteq> remainingModels s"
    "modelIDs s' = modelIDs s @ new" "distinct new"
    "set new = remainingModels s - remainingModels s'"
    "\<And>k. k \<notin> remainingModels s - remainingModels s' \<Longrightarrow>
            models_at (models s') k = models_at (models s) k"
    "fst ` set (models s) \<subseteq> fst ` set (models s')"
    "fst ` set (models s') \<subseteq> fst ` set (models s) \<union> remainingModels s"
  shows "frame s s'"
  unfolding frame_def using assms by simp

lemma frame_trans:
  assumes "frame s s'" "frame s' s''"
  shows "frame s s''"
proof -
  from frameD(4)[OF assms(1)] obtain new where n1: "modelIDs s' = modelIDs s @ new" "distinct new"
    "set new = remainingModels s - remainingModels s'"
    by blast
  from frameD(4)[OF assms(2)] obtain new' where n2: "modelIDs s'' = modelIDs s' @ new'" "distinct new'"
    "set new' = remainingModels s' - remainingModels s''"
    by blast
  have sub: "remainingModels s' \<subseteq> remainingModels s" "remainingModels s'' \<subseteq> remainingModels s'"
    using frameD(3)[OF assms(1)] frameD(3)[OF assms(2)] by simp_all
  show ?thesis
  proof (rule frameI[where new = "new @ new'"])
    show "modelIDs s'' = modelIDs s @ (new @ new')" by (simp add: n1(1) n2(1))
    have "set new \<inter> set new' = {}" unfolding n1(3) n2(3) by blast
    then show "distinct (new @ new')" using n1(2) n2(2) by simp
    have "set new \<union> set new' = remainingModels s - remainingModels s''"
      unfolding n1(3) n2(3) using sub by blast
    then show "set (new @ new') = remainingModels s - remainingModels s''"
      by simp
    show "models_at (models s'') k = models_at (models s) k"
      if k: "k \<notin> remainingModels s - remainingModels s''" for k
    proof -
      have k1: "k \<notin> remainingModels s - remainingModels s'"
        and k2: "k \<notin> remainingModels s' - remainingModels s''"
        using k sub by blast+
      show ?thesis
        by (rule trans[OF frameD(5)[OF assms(2) k2] frameD(5)[OF assms(1) k1]])
    qed
    show "fst ` set (models s) \<subseteq> fst ` set (models s'')"
      using frameD(6)[OF assms(1)] frameD(6)[OF assms(2)] by (rule subset_trans)
    show "fst ` set (models s'') \<subseteq> fst ` set (models s) \<union> remainingModels s"
      using frameD(7)[OF assms(1)] frameD(7)[OF assms(2)] sub(1) by blast
    show "connParentMap s'' = connParentMap s"
      using frameD(1)[OF assms(1)] frameD(1)[OF assms(2)] by simp
    show "connChildMap s'' = connChildMap s"
      using frameD(2)[OF assms(1)] frameD(2)[OF assms(2)] by simp
    show "remainingModels s'' \<subseteq> remainingModels s" using sub by blast
  qed
qed

lemma frame_take:
  assumes "p \<in> remainingModels s"
  shows "frame s (s\<lparr>modelIDs := modelIDs s @ [p], remainingModels := remainingModels s - {p}\<rparr>)"
  by (rule frameI[where new = "[p]"]) (use assms in auto)

lemma append_frame:
  "appendModelIDs fuel p cm r s = Some s' \<Longrightarrow> frame s s' \<and> p \<notin> remainingModels s'"
  "appendChildIDs fuel pIdx cs cm s = Some s' \<Longrightarrow> frame s s'"
proof (induction fuel p cm r s and fuel pIdx cs cm s arbitrary: s' and s' rule: appendModelIDs_appendChildIDs.induct)
  case (1 parentID connectionChildMap isRootNode s)
  then show ?case by simp
next
  case (2 fuel parentID cm isRootNode s)
  define s1 where "s1 = (if parentID \<in> remainingModels s
                then s\<lparr>modelIDs := modelIDs s @ [parentID],
                       remainingModels := remainingModels s - {parentID}\<rparr>
                else s)"
  define pIdx where "pIdx = (if isRootNode then - 1 else int (length (modelIDs s1)) - 1)"
  have run: "appendChildIDs fuel pIdx (QMultiMap_values cm parentID) cm s1 = Some s'"
    using "2.prems" by (simp only: appendModelIDs.simps Let_def s1_def pIdx_def)
  have f1: "frame s s1" unfolding s1_def by (simp add: frame_refl frame_take)
  have f2: "frame s1 s'" using "2.IH"[OF s1_def pIdx_def run] .
  have "parentID \<notin> remainingModels s1" unfolding s1_def by simp
  then have "parentID \<notin> remainingModels s'" using f2 unfolding frame_def by blast
  then show ?case using frame_trans[OF f1 f2] by simp
next
  case (3 fuel parentIdx connectionChildMap s)
  then show ?case by (simp add: frame_refl)
next
  case (4 fuel pIdx childID rest cm s)
  show ?case
  proof (cases "childID \<in> remainingModels s \<and> FBXModel.parentIndex (models_at (models s) childID) = - 1")
    case True
    define su where "su = s\<lparr>models := AList.update childID
                        ((models_at (models s) childID)\<lparr>FBXModel.parentIndex := pIdx\<rparr>)
                        (models s)\<rparr>"
    from "4.prems" True obtain s'' where
      r1: "appendModelIDs fuel childID cm False su = Some s''" and
      r2: "appendChildIDs fuel pIdx rest cm s'' = Some s'"
      by (auto simp: su_def split: option.splits)
    have f1: "frame su s''" and nr: "childID \<notin> remainingModels s''"
      using "4.IH"(1)[OF True r1[unfolded su_def]] by (simp_all add: su_def)
    have f2: "frame s'' s'"
      using "4.IH"(2)[OF True r1[unfolded su_def] r2] .
    have f0: "frame s s''"
    proof -
      from frameD(4)[OF f1] obtain new where n: "modelIDs s'' = modelIDs su @ new" "distinct new"
        "set new = remainingModels su - remainingModels s''" by blast
      show ?thesis
      proof (rule frameI[where new = new])
        show "models_at (models s'') k = models_at (models s) k"
          if "k \<notin> remainingModels s - remainingModels s''" for k
        proof -
          have "k \<noteq> childID" using that True nr by auto
          then have "models_at (models su) k = models_at (models s) k"
            by (simp add: su_def models_at_update)
          moreover have "k \<notin> remainingModels su - remainingModels s''"
            using that by (simp add: su_def)
          then have "models_at (models s'') k = models_at (models su) k"
            by (rule frameD(5)[OF f1])
          ultimately show ?thesis by (rule trans[rotated])
        qed
        show "fst ` set (models s) \<subseteq> fst ` set (models s'')"
          using frameD(6)[OF f1] by (auto simp: su_def dom_update)
        show "fst ` set (models s'') \<subseteq> fst ` set (models s) \<union> remainingModels s"
          using frameD(7)[OF f1] True by (auto simp: su_def dom_update)
        show "connParentMap s'' = connParentMap s" using frameD(1)[OF f1] by (simp add: su_def)
        show "connChildMap s'' = connChildMap s" using frameD(2)[OF f1] by (simp add: su_def)
        show "remainingModels s'' \<subseteq> remainingModels s" using frameD(3)[OF f1] by (simp add: su_def)
        show "modelIDs s'' = modelIDs s @ new" using n(1) by (simp add: su_def)
        show "distinct new" by (rule n(2))
        show "set new = remainingModels s - remainingModels s''" using n(3) by (simp add: su_def)
      qed
    qed
    show ?thesis using frame_trans[OF f0 f2] .
  next
    case False
    then have "appendChildIDs fuel pIdx rest cm s = Some s'"
      using "4.prems" by auto
    then show ?thesis using "4.IH"(3)[OF False] by simp
  qed
qed

lemma appendModelIDs_unfold:
  "appendModelIDs (Suc fuel) p cm r s =
     appendChildIDs fuel
       (if r then - 1 else int (length (modelIDs (if p \<in> remainingModels s
                then s\<lparr>modelIDs := modelIDs s @ [p], remainingModels := remainingModels s - {p}\<rparr>
                else s))) - 1)
       (QMultiMap_values cm p) cm
       (if p \<in> remainingModels s
                then s\<lparr>modelIDs := modelIDs s @ [p], remainingModels := remainingModels s - {p}\<rparr>
                else s)"
  by (simp only: appendModelIDs.simps Let_def)

lemma append_total:
  "finite (remainingModels s) \<Longrightarrow> card (remainingModels s - {p}) < fuel
     \<Longrightarrow> \<exists>s'. appendModelIDs fuel p cm r s = Some s'"
  "finite (remainingModels s) \<Longrightarrow> card (remainingModels s) \<le> fuel
     \<Longrightarrow> \<exists>s'. appendChildIDs fuel pIdx cs cm s = Some s'"
proof (induction fuel p cm r s and fuel pIdx cs cm s rule: appendModelIDs_appendChildIDs.induct)
  case (1 parentID connectionChildMap isRootNode s)
  then show ?case by simp
next
  case (2 fuel parentID cm isRootNode s)
  define s1 where "s1 = (if parentID \<in> remainingModels s
                then s\<lparr>modelIDs := modelIDs s @ [parentID],
                       remainingModels := remainingModels s - {parentID}\<rparr>
                else s)"
  define pIdx where "pIdx = (if isRootNode then - 1 else int (length (modelIDs s1)) - 1)"
  have r1: "remainingModels s1 = remainingModels s - {parentID}"
    by (simp add: s1_def)
  have "finite (remainingModels s1)" "card (remainingModels s1) \<le> fuel"
    using "2.prems" by (simp_all add: r1)
  from "2.IH"[OF s1_def pIdx_def this]
  obtain s' where "appendChildIDs fuel pIdx (QMultiMap_values cm parentID) cm s1 = Some s'"
    by blast
  then have "appendModelIDs (Suc fuel) parentID cm isRootNode s = Some s'"
    by (simp only: appendModelIDs.simps Let_def s1_def pIdx_def)
  then show ?case by blast
next
  case (3 fuel parentIdx connectionChildMap s)
  then show ?case by simp
next
  case (4 fuel pIdx childID rest cm s)
  show ?case
  proof (cases "childID \<in> remainingModels s \<and> FBXModel.parentIndex (models_at (models s) childID) = - 1")
    case True
    define su where "su = s\<lparr>models := AList.update childID
                        ((models_at (models s) childID)\<lparr>FBXModel.parentIndex := pIdx\<rparr>)
                        (models s)\<rparr>"
    have rs: "remainingModels su = remainingModels s" by (simp add: su_def)
    have "card (remainingModels s - {childID}) < card (remainingModels s)"
      using True "4.prems"(1) by (intro card_Diff1_less) simp_all
    then have "finite (remainingModels su)" "card (remainingModels su - {childID}) < fuel"
      using "4.prems" by (simp_all add: rs)
    from "4.IH"(1)[OF True this[unfolded su_def]]
    obtain s'' where r1: "appendModelIDs fuel childID cm False su = Some s''"
      unfolding su_def by blast
    have "remainingModels s'' \<subseteq> remainingModels s"
      using frameD(3)[OF conjunct1[OF append_frame(1)[OF r1]]] by (simp add: rs)
    then have "finite (remainingModels s'')" "card (remainingModels s'') \<le> fuel"
      using "4.prems" by (auto intro: finite_subset dest: card_mono[rotated])
    from "4.IH"(2)[OF True r1[unfolded su_def] this]
    obtain s' where "appendChildIDs fuel pIdx rest cm s'' = Some s'" by blast
    then have "appendChildIDs fuel pIdx (childID # rest) cm s = Some s'"
      using True r1 by (simp add: su_def)
    then show ?thesis by blast
  next
    case False
    from "4.IH"(3)[OF False "4.prems"]
    obtain s' where "appendChildIDs fuel pIdx rest cm s = Some s'" by blast
    then have "appendChildIDs fuel pIdx (childID # rest) cm s = Some s'"
      using False by auto
    then show ?thesis by blast
  qed
qed

lemma fresh_frame:
  assumes "fresh s" "frame s s'"
  shows "fresh s'"
  unfolding fresh_def
proof
  fix k assume k: "k \<in> remainingModels s'"
  then have "k \<in> remainingModels s" using frameD(3)[OF assms(2)] by blast
  then have "pidx s k = - 1" using assms(1) by (simp add: fresh_def)
  moreover have "k \<notin> remainingModels s - remainingModels s'" using k by simp
  then have "models_at (models s') k = models_at (models s) k" by (rule frameD(5)[OF assms(2)])
  ultimately show "pidx s' k = - 1" by (simp add: pidx_def)
qed

lemma fresh_take:
  assumes "\<forall>k \<in> remainingModels s - {p}. pidx s k = - 1"
  shows "fresh (if p \<in> remainingModels s
                then s\<lparr>modelIDs := modelIDs s @ [p], remainingModels := remainingModels s - {p}\<rparr>
                else s)"
  using assms by (auto simp: fresh_def pidx_def)

lemma fresh_update:
  assumes "fresh s"
  shows "\<forall>k \<in> remainingModels (s\<lparr>models := AList.update c m (models s)\<rparr>) - {c}.
           pidx (s\<lparr>models := AList.update c m (models s)\<rparr>) k = - 1"
  using assms by (auto simp: fresh_def pidx_def models_at_update)

lemma append_fresh:
  assumes "appendModelIDs fuel p cm r s = Some s'"
    and "\<forall>k \<in> remainingModels s - {p}. pidx s k = - 1"
  shows "fresh s'"
proof (cases fuel)
  case 0
  then show ?thesis using assms by simp
next
  case (Suc n)
  let ?s1 = "if p \<in> remainingModels s
                then s\<lparr>modelIDs := modelIDs s @ [p], remainingModels := remainingModels s - {p}\<rparr>
                else s"
  from assms(1) obtain pIdx where "appendChildIDs n pIdx (QMultiMap_values cm p) cm ?s1 = Some s'"
    unfolding Suc appendModelIDs_unfold by blast
  then have "frame ?s1 s'" by (rule append_frame(2))
  with fresh_take[OF assms(2)] show ?thesis by (rule fresh_frame)
qed

lemma children_done:
  "appendChildIDs fuel pIdx cs cm s = Some s' \<Longrightarrow> fresh s \<Longrightarrow> \<forall>c \<in> set cs. c \<notin> remainingModels s'"
proof (induction cs arbitrary: s)
  case Nil
  then show ?case by simp
next
  case (Cons c rest)
  show ?case
  proof (cases "c \<in> remainingModels s \<and> FBXModel.parentIndex (models_at (models s) c) = - 1")
    case True
    define su where "su = s\<lparr>models := AList.update c
                        ((models_at (models s) c)\<lparr>FBXModel.parentIndex := pIdx\<rparr>)
                        (models s)\<rparr>"
    from Cons.prems(1) True obtain s'' where
      r1: "appendModelIDs fuel c cm False su = Some s''" and
      r2: "appendChildIDs fuel pIdx rest cm s'' = Some s'"
      by (auto simp: su_def split: option.splits)
    have "fresh s''"
      using r1 fresh_update[OF Cons.prems(2)] unfolding su_def by (rule append_fresh)
    from Cons.IH[OF r2 this] have rest: "\<forall>c \<in> set rest. c \<notin> remainingModels s'" .
    have "c \<notin> remainingModels s''" using append_frame(1)[OF r1] by simp
    moreover have "remainingModels s' \<subseteq> remainingModels s''"
      using frameD(3)[OF append_frame(2)[OF r2]] .
    ultimately show ?thesis using rest by auto
  next
    case False
    then have r: "appendChildIDs fuel pIdx rest cm s = Some s'"
      using Cons.prems(1) by auto
    have "c \<notin> remainingModels s" using False Cons.prems(2) by (auto simp: fresh_def pidx_def)
    moreover have "remainingModels s' \<subseteq> remainingModels s"
      using frameD(3)[OF append_frame(2)[OF r]] .
    ultimately show ?thesis using Cons.IH[OF r Cons.prems(2)] by auto
  qed
qed

lemma placedDone_mono:
  "placedDone cm Q s \<Longrightarrow> remainingModels s' \<subseteq> remainingModels s \<Longrightarrow> placedDone cm Q s'"
  unfolding placedDone_def by blast

lemma placedDone_Un:
  "placedDone cm Q s \<Longrightarrow> placedDone cm Q' s \<Longrightarrow> placedDone cm (Q \<union> Q') s"
  unfolding placedDone_def by blast

lemma placedDone_subset:
  "placedDone cm Q s \<Longrightarrow> Q' \<subseteq> Q \<Longrightarrow> placedDone cm Q' s"
  unfolding placedDone_def by blast

lemma append_done:
  "appendModelIDs fuel p cm r s = Some s' \<Longrightarrow> \<forall>k \<in> remainingModels s - {p}. pidx s k = - 1
     \<Longrightarrow> placedDone cm (insert p (set (modelIDs s') - set (modelIDs s))) s'"
  "appendChildIDs fuel pIdx cs cm s = Some s' \<Longrightarrow> fresh s
     \<Longrightarrow> placedDone cm (set (modelIDs s') - set (modelIDs s)) s'"
proof (induction fuel p cm r s and fuel pIdx cs cm s arbitrary: s' and s'
    rule: appendModelIDs_appendChildIDs.induct)
  case (1 parentID connectionChildMap isRootNode s)
  then show ?case by simp
next
  case (2 fuel parentID cm isRootNode s)
  define s1 where "s1 = (if parentID \<in> remainingModels s
                then s\<lparr>modelIDs := modelIDs s @ [parentID],
                       remainingModels := remainingModels s - {parentID}\<rparr>
                else s)"
  define pIdx where "pIdx = (if isRootNode then - 1 else int (length (modelIDs s1)) - 1)"
  have run: "appendChildIDs fuel pIdx (QMultiMap_values cm parentID) cm s1 = Some s'"
    using "2.prems"(1) by (simp only: appendModelIDs.simps Let_def s1_def pIdx_def)
  have f1: "fresh s1" unfolding s1_def using "2.prems"(2) by (rule fresh_take)
  have a: "placedDone cm (set (modelIDs s') - set (modelIDs s1)) s'"
    using "2.IH"[OF s1_def pIdx_def run f1] .
  have b: "placedDone cm {parentID} s'"
    using children_done[OF run f1] by (simp add: placedDone_def)
  have "insert parentID (set (modelIDs s') - set (modelIDs s))
          \<subseteq> (set (modelIDs s') - set (modelIDs s1)) \<union> {parentID}"
    by (auto simp: s1_def)
  then show ?case using placedDone_Un[OF a b] by (rule placedDone_subset[rotated])
next
  case (3 fuel parentIdx connectionChildMap s)
  then show ?case by (simp add: placedDone_def)
next
  case (4 fuel pIdx childID rest cm s)
  show ?case
  proof (cases "childID \<in> remainingModels s \<and> FBXModel.parentIndex (models_at (models s) childID) = - 1")
    case True
    define su where "su = s\<lparr>models := AList.update childID
                        ((models_at (models s) childID)\<lparr>FBXModel.parentIndex := pIdx\<rparr>)
                        (models s)\<rparr>"
    from "4.prems"(1) True obtain s'' where
      r1: "appendModelIDs fuel childID cm False su = Some s''" and
      r2: "appendChildIDs fuel pIdx rest cm s'' = Some s'"
      by (auto simp: su_def split: option.splits)
    have fu: "\<forall>k \<in> remainingModels su - {childID}. pidx su k = - 1"
      unfolding su_def using "4.prems"(2) by (rule fresh_update)
    have f2: "fresh s''" using r1 fu by (rule append_fresh)
    have a: "placedDone cm (insert childID (set (modelIDs s'') - set (modelIDs su))) s''"
      using "4.IH"(1)[OF True r1[unfolded su_def] fu[unfolded su_def]] by (simp add: su_def)
    have b: "placedDone cm (set (modelIDs s') - set (modelIDs s'')) s'"
      using "4.IH"(2)[OF True r1[unfolded su_def] r2 f2] .
    have sub: "remainingModels s' \<subseteq> remainingModels s''"
      using frameD(3)[OF append_frame(2)[OF r2]] .
    have "set (modelIDs s') - set (modelIDs s)
           \<subseteq> insert childID (set (modelIDs s'') - set (modelIDs su)) \<union> (set (modelIDs s') - set (modelIDs s''))"
      by (auto simp: su_def)
    then show ?thesis
      using placedDone_Un[OF placedDone_mono[OF a sub] b] by (rule placedDone_subset[rotated])
  next
    case False
    then have "appendChildIDs fuel pIdx rest cm s = Some s'"
      using "4.prems"(1) by auto
    then show ?thesis using "4.IH"(3)[OF False _ "4.prems"(2)] by simp
  qed
qed

lemma disj_frame:
  assumes "disj s" "frame s s'"
  shows "disj s'"
proof -
  from frameD(4)[OF assms(2)] obtain new where n: "modelIDs s' = modelIDs s @ new" "distinct new"
    "set new = remainingModels s - remainingModels s'" by blast
  have sub: "remainingModels s' \<subseteq> remainingModels s" using frameD(3)[OF assms(2)] .
  have a: "set (modelIDs s) \<inter> remainingModels s = {}" "distinct (modelIDs s)"
    using assms(1) by (simp_all add: disj_def)
  have "set (modelIDs s) \<inter> set new = {}" unfolding n(3) using a(1) by blast
  then have "distinct (modelIDs s')" using a(2) n(2) by (simp add: n(1))
  moreover have "set (modelIDs s') \<inter> remainingModels s' = {}"
    unfolding n(1) set_append n(3) using a(1) sub by blast
  ultimately show ?thesis by (simp add: disj_def)
qed

lemma frame_length:
  assumes "frame s s'"
  shows "length (modelIDs s) \<le> length (modelIDs s')"
  using frameD(4)[OF assms] by auto

lemma placedOK_take:
  assumes "placedOK s" "p \<in> remainingModels s \<longrightarrow> - 1 \<le> pidx s p \<and> pidx s p < int (length (modelIDs s))"
  shows "placedOK (if p \<in> remainingModels s
                then s\<lparr>modelIDs := modelIDs s @ [p], remainingModels := remainingModels s - {p}\<rparr>
                else s)"
proof (cases "p \<in> remainingModels s")
  case True
  let ?s1 = "s\<lparr>modelIDs := modelIDs s @ [p], remainingModels := remainingModels s - {p}\<rparr>"
  have px: "pidx ?s1 k = pidx s k" for k by (simp add: pidx_def)
  have "- 1 \<le> pidx ?s1 (modelIDs ?s1 ! i) \<and> pidx ?s1 (modelIDs ?s1 ! i) < int i"
    if "i < length (modelIDs ?s1)" for i
  proof (cases "i < length (modelIDs s)")
    case True
    then show ?thesis using assms(1) by (simp add: px nth_append placedOK_def)
  next
    case False
    then have "i = length (modelIDs s)" using that by simp
    then show ?thesis using assms(2) \<open>p \<in> remainingModels s\<close> by (simp add: px)
  qed
  then have "placedOK ?s1" unfolding placedOK_def by blast
  then show ?thesis using True by simp
next
  case False
  then show ?thesis using assms(1) by simp
qed

lemma disj_take:
  assumes "disj s"
  shows "disj (if p \<in> remainingModels s
                then s\<lparr>modelIDs := modelIDs s @ [p], remainingModels := remainingModels s - {p}\<rparr>
                else s)"
  using assms by (auto simp: disj_def)

lemma placedOK_update:
  assumes "placedOK s" "disj s" "c \<in> remainingModels s"
  shows "placedOK (s\<lparr>models := AList.update c m (models s)\<rparr>)"
proof -
  let ?su = "s\<lparr>models := AList.update c m (models s)\<rparr>"
  have "pidx ?su (modelIDs s ! i) = pidx s (modelIDs s ! i)" if "i < length (modelIDs s)" for i
  proof -
    have "modelIDs s ! i \<in> set (modelIDs s)" using that by simp
    then have "modelIDs s ! i \<noteq> c" using assms(2,3) by (auto simp: disj_def)
    then show ?thesis by (simp add: pidx_def models_at_update)
  qed
  then show ?thesis using assms(1) by (simp add: placedOK_def)
qed

lemma append_placed:
  "appendModelIDs fuel p cm r s = Some s' \<Longrightarrow> placedOK s \<Longrightarrow> disj s
     \<Longrightarrow> (p \<in> remainingModels s \<longrightarrow> - 1 \<le> pidx s p \<and> pidx s p < int (length (modelIDs s)))
     \<Longrightarrow> placedOK s'"
  "appendChildIDs fuel pIdx cs cm s = Some s' \<Longrightarrow> placedOK s \<Longrightarrow> disj s
     \<Longrightarrow> - 1 \<le> pIdx \<Longrightarrow> pIdx < int (length (modelIDs s))
     \<Longrightarrow> placedOK s'"
proof (induction fuel p cm r s and fuel pIdx cs cm s arbitrary: s' and s'
    rule: appendModelIDs_appendChildIDs.induct)
  case (1 parentID connectionChildMap isRootNode s)
  then show ?case by simp
next
  case (2 fuel parentID cm isRootNode s)
  define s1 where "s1 = (if parentID \<in> remainingModels s
                then s\<lparr>modelIDs := modelIDs s @ [parentID],
                       remainingModels := remainingModels s - {parentID}\<rparr>
                else s)"
  define pIdx where "pIdx = (if isRootNode then - 1 else int (length (modelIDs s1)) - 1)"
  have run: "appendChildIDs fuel pIdx (QMultiMap_values cm parentID) cm s1 = Some s'"
    using "2.prems"(1) by (simp only: appendModelIDs.simps Let_def s1_def pIdx_def)
  have a: "placedOK s1" unfolding s1_def using "2.prems"(2,4) by (rule placedOK_take)
  have b: "disj s1" unfolding s1_def using "2.prems"(3) by (rule disj_take)
  have c: "- 1 \<le> pIdx" "pIdx < int (length (modelIDs s1))" by (simp_all add: pIdx_def)
  show ?case using "2.IH"[OF s1_def pIdx_def run a b c] .
next
  case (3 fuel parentIdx connectionChildMap s)
  then show ?case by simp
next
  case (4 fuel pIdx childID rest cm s)
  show ?case
  proof (cases "childID \<in> remainingModels s \<and> FBXModel.parentIndex (models_at (models s) childID) = - 1")
    case True
    define su where "su = s\<lparr>models := AList.update childID
                        ((models_at (models s) childID)\<lparr>FBXModel.parentIndex := pIdx\<rparr>)
                        (models s)\<rparr>"
    from "4.prems"(1) True obtain s'' where
      r1: "appendModelIDs fuel childID cm False su = Some s''" and
      r2: "appendChildIDs fuel pIdx rest cm s'' = Some s'"
      by (auto simp: su_def split: option.splits)
    have a: "placedOK su" unfolding su_def
      using "4.prems"(2,3) conjunct1[OF True] by (rule placedOK_update)
    have b: "disj su" using "4.prems"(3) by (simp add: su_def disj_def)
    have c: "childID \<in> remainingModels su \<longrightarrow> - 1 \<le> pidx su childID \<and> pidx su childID < int (length (modelIDs su))"
      using "4.prems"(4,5) by (simp add: su_def pidx_def models_at_update)
    have p2: "placedOK s''"
      using "4.IH"(1)[OF True r1[unfolded su_def] a[unfolded su_def] b[unfolded su_def] c[unfolded su_def]] .
    have fr: "frame su s''" using append_frame(1)[OF r1] by simp
    have d2: "disj s''" using b fr by (rule disj_frame)
    have "length (modelIDs s) \<le> length (modelIDs s'')"
      using frame_length[OF fr] by (simp add: su_def)
    then have l2: "pIdx < int (length (modelIDs s''))" using "4.prems"(5) by simp
    show ?thesis
      using "4.IH"(2)[OF True r1[unfolded su_def] r2 p2 d2 "4.prems"(4) l2] .
  next
    case False
    then have "appendChildIDs fuel pIdx rest cm s = Some s'"
      using "4.prems"(1) by auto
    then show ?thesis using "4.IH"(3)[OF False _ "4.prems"(2-5)] by simp
  qed
qed

lemma QHash_contains_iff: "QHash_contains h k \<longleftrightarrow> k \<in> fst ` set h"
  by (simp add: QHash_contains_def map_of_eq_None_iff)

lemma top_closed:
  "\<forall>x \<in> S. \<forall>p \<in> set (QMultiMap_values pm x). QHash_contains ms p \<longrightarrow> p \<in> S
     \<Longrightarrow> t \<in> S \<Longrightarrow> fst (getTopModelID_loop pm ms t v) \<in> S"
proof (induction pm ms t v rule: getTopModelID_loop.induct)
  case (1 pm ms t v)
  show ?case
  proof (cases "find (\<lambda>p. p \<notin> set (v @ [t]) \<and> QHash_contains ms p) (QMultiMap_values pm t)")
    case None
    then show ?thesis using "1.prems"(2) by (subst getTopModelID_loop.simps) simp
  next
    case (Some p)
    then have "p \<in> set (QMultiMap_values pm t)" "QHash_contains ms p"
      by (auto simp: find_Some_iff)
    then have "p \<in> S" using "1.prems" by blast
    from "1.IH"[OF Some "1.prems"(1) this] show ?thesis
      using Some by (subst getTopModelID_loop.simps) simp
  qed
qed

lemma top_rounds:
  "length (snd (getTopModelID_loop pm ms t v))
     \<le> length v + 1 + card (fst ` set ms - set v - {t})"
proof (induction pm ms t v rule: getTopModelID_loop.induct)
  case (1 pm ms t v)
  show ?case
  proof (cases "find (\<lambda>p. p \<notin> set (v @ [t]) \<and> QHash_contains ms p) (QMultiMap_values pm t)")
    case None
    then show ?thesis by (subst getTopModelID_loop.simps) simp
  next
    case (Some p)
    then have p: "p \<notin> set (v @ [t])" "QHash_contains ms p"
      by (auto simp: find_Some_iff)
    then have "p \<in> fst ` set ms - set v - {t}" by (simp add: QHash_contains_iff)
    then have "card ((fst ` set ms - set v - {t}) - {p}) < card (fst ` set ms - set v - {t})"
      by (intro card_Diff1_less) simp_all
    moreover have "fst ` set ms - set (v @ [t]) - {p} = (fst ` set ms - set v - {t}) - {p}"
      by auto
    ultimately have "card (fst ` set ms - set (v @ [t]) - {p}) < card (fst ` set ms - set v - {t})"
      by simp
    with "1.IH"[OF Some] have
      "length (snd (getTopModelID_loop pm ms p (v @ [t]))) \<le> length v + 1 + card (fst ` set ms - set v - {t})"
      by simp
    then show ?thesis
      using Some by (subst getTopModelID_loop.simps) simp
  qed
qed

lemma card_keys_le: "card (fst ` set ms) \<le> length ms"
  by (metis card_image_le card_length le_trans List.finite_set)

lemma getTopModelID_rounds:
  "length (snd (getTopModelID_loop pm ms t [])) \<le> Suc (length ms)"
proof -
  have "card (fst ` set ms - set [] - {t}) \<le> card (fst ` set ms)"
    by (intro card_mono) auto
  then show ?thesis
    using top_rounds[of pm ms t "[]"] card_keys_le[of ms] by simp
qed

lemma prepareModel_root:
  assumes "modelIDs s = []"
  shows "prepareModel clusters key s =
     (if \<not> QMultiMap_contains (connChildMap s) (QMultiMap_value (connParentMap s) key) key
      then s\<lparr>connChildMap := QMultiMap_insert (QMultiMap_value (connParentMap s) key) key (connChildMap s),
             remainingModels := insert key (remainingModels s)\<rparr>
      else s\<lparr>remainingModels := insert key (remainingModels s)\<rparr>)"
  using assms by (simp add: prepareModel_def Let_def)

lemma prepareModel_props:
  assumes "modelIDs s = []"
  shows "connParentMap (prepareModel clusters key s) = connParentMap s"
    "models (prepareModel clusters key s) = models s"
    "modelIDs (prepareModel clusters key s) = []"
    "remainingModels (prepareModel clusters key s) = insert key (remainingModels s)"
    "set (connChildMap s) \<subseteq> set (connChildMap (prepareModel clusters key s))"
    "(QMultiMap_value (connParentMap s) key, key) \<in> set (connChildMap (prepareModel clusters key s))"
  using assms
  by (auto simp: prepareModel_root QMultiMap_contains_def QMultiMap_insert_def)

lemma prepareModels_fold:
  "modelIDs s = [] \<Longrightarrow>
    connParentMap (fold (prepareModel clusters) ks s) = connParentMap s \<and>
    models (fold (prepareModel clusters) ks s) = models s \<and>
    modelIDs (fold (prepareModel clusters) ks s) = [] \<and>
    remainingModels (fold (prepareModel clusters) ks s) = remainingModels s \<union> set ks \<and>
    set (connChildMap s) \<subseteq> set (connChildMap (fold (prepareModel clusters) ks s)) \<and>
    (\<forall>k \<in> set ks. (QMultiMap_value (connParentMap s) k, k)
        \<in> set (connChildMap (fold (prepareModel clusters) ks s)))"
proof (induction ks arbitrary: s)
  case Nil
  then show ?case by simp
next
  case (Cons k ks)
  let ?s1 = "prepareModel clusters k s"
  note p = prepareModel_props[OF Cons.prems, where clusters = clusters and key = k]
  note ih = Cons.IH[OF p(3)]
  show ?case
    using ih p(5,6) by (auto simp: p(1,2,4))
qed

lemma connect_fold:
  "\<forall>c p. (c, p) \<in> set (connParentMap s) \<longrightarrow> (p, c) \<in> set (connChildMap s) \<Longrightarrow>
   (let s' = fold (\<lambda>(childID, parentID) s.
             s\<lparr>connParentMap := QMultiMap_insert childID parentID (connParentMap s),
               connChildMap := QMultiMap_insert parentID childID (connChildMap s)\<rparr>) cs s
    in (\<forall>c p. (c, p) \<in> set (connParentMap s') \<longrightarrow> (p, c) \<in> set (connChildMap s')) \<and>
       models s' = models s \<and> modelIDs s' = modelIDs s \<and> remainingModels s' = remainingModels s)"
proof (induction cs arbitrary: s)
  case Nil
  then show ?case by simp
next
  case (Cons a cs)
  obtain c p where a: "a = (c, p)" by (cases a)
  let ?s1 = "s\<lparr>connParentMap := QMultiMap_insert c p (connParentMap s),
               connChildMap := QMultiMap_insert p c (connChildMap s)\<rparr>"
  have "\<forall>c p. (c, p) \<in> set (connParentMap ?s1) \<longrightarrow> (p, c) \<in> set (connChildMap ?s1)"
    using Cons.prems by (auto simp: QMultiMap_insert_def)
  from Cons.IH[OF this] show ?case by (simp add: a Let_def)
qed

lemma connect_props:
  "(c, p) \<in> set (connParentMap (connect ms cs)) \<Longrightarrow> (p, c) \<in> set (connChildMap (connect ms cs))"
  "models (connect ms cs) = ms" "modelIDs (connect ms cs) = []" "remainingModels (connect ms cs) = {}"
  using connect_fold[of "\<lparr>connParentMap = [], connChildMap = [], models = ms,
        remainingModels = {}, modelIDs = []\<rparr>" cs]
  by (simp_all add: connect_def Let_def)

lemma frame_union:
  assumes "frame s s'"
  shows "set (modelIDs s') \<union> remainingModels s' = set (modelIDs s) \<union> remainingModels s"
proof -
  from frameD(4)[OF assms] obtain new where n: "modelIDs s' = modelIDs s @ new"
    "set new = remainingModels s - remainingModels s'" by blast
  show ?thesis unfolding n(1) set_append n(2) using frameD(3)[OF assms] by blast
qed

lemma order_step:
  assumes inv: "orderInv s" and ne: "remainingModels s \<noteq> {}" and c: "card (remainingModels s) \<le> n"
  defines "topID \<equiv> getTopModelID (connParentMap s) (models s) (Min (remainingModels s))"
  shows "\<exists>s1. appendModelIDs (Suc n) (QMultiMap_value (connParentMap s) topID) (connChildMap s) True s = Some s1
            \<and> orderInv s1 \<and> remainingModels s1 \<subset> remainingModels s \<and> frame s s1"
proof -
  let ?pm = "connParentMap s" and ?cm = "connChildMap s" and ?R = "remainingModels s"
  let ?P = "QMultiMap_value ?pm topID"
  have fin: "finite ?R" and fr: "fresh s" and pl: "placedOK s" and dj: "disj s"
    and pd: "placedDone ?cm (set (modelIDs s)) s"
    and g1: "\<And>c p. (c, p) \<in> set ?pm \<Longrightarrow> (p, c) \<in> set ?cm"
    and g2: "\<And>k. k \<in> ?R \<Longrightarrow> (QMultiMap_value ?pm k, k) \<in> set ?cm"
    and keys: "fst ` set (models s) = set (modelIDs s) \<union> ?R"
    using inv unfolding orderInv_def by blast+
  have first: "Min ?R \<in> ?R" using fin ne by (rule Min_in)
  have closed: "\<forall>x \<in> ?R. \<forall>p \<in> set (QMultiMap_values ?pm x). QHash_contains (models s) p \<longrightarrow> p \<in> ?R"
  proof (intro ballI impI)
    fix x p assume x: "x \<in> ?R" and p: "p \<in> set (QMultiMap_values ?pm x)"
      and m: "QHash_contains (models s) p"
    have "(p, x) \<in> set ?cm" using p g1 by (simp add: QMultiMap_values_iff)
    then have "x \<in> set (QMultiMap_values ?cm p)" by (simp add: QMultiMap_values_iff)
    then have "p \<notin> set (modelIDs s)" using pd x unfolding placedDone_def by blast
    moreover have "p \<in> set (modelIDs s) \<union> ?R" using m keys by (simp add: QHash_contains_iff)
    ultimately show "p \<in> ?R" by blast
  qed
  have topID: "topID \<in> ?R"
    unfolding topID_def getTopModelID_def using closed first by (rule top_closed)
  have child: "topID \<in> set (QMultiMap_values ?cm ?P)"
    using g2[OF topID] by (simp add: QMultiMap_values_iff)
  have "card (?R - {?P}) \<le> card ?R" using fin by (intro card_mono) auto
  then have "card (?R - {?P}) < Suc n" using c by simp
  from append_total(1)[OF fin this]
  obtain s1 where run: "appendModelIDs (Suc n) ?P ?cm True s = Some s1" by blast
  have f: "frame s s1" using append_frame(1)[OF run] by simp
  have pre: "\<forall>k \<in> ?R - {?P}. pidx s k = - 1" using fr by (simp add: fresh_def)
  have fr1: "fresh s1" using run pre by (rule append_fresh)
  have "?P \<in> ?R \<longrightarrow> - 1 \<le> pidx s ?P \<and> pidx s ?P < int (length (modelIDs s))"
    using fr by (auto simp: fresh_def)
  with run pl dj have pl1: "placedOK s1" by (rule append_placed(1))
  have dj1: "disj s1" using dj f by (rule disj_frame)
  have sub: "remainingModels s1 \<subseteq> ?R" using frameD(3)[OF f] .
  have d1: "placedDone ?cm (insert ?P (set (modelIDs s1) - set (modelIDs s))) s1"
    using run pre by (rule append_done(1))
  have d0: "placedDone ?cm (set (modelIDs s)) s1" using pd sub by (rule placedDone_mono)
  have pd1: "placedDone ?cm (set (modelIDs s1)) s1"
    using placedDone_Un[OF d1 d0] by (rule placedDone_subset) blast
  have "topID \<notin> remainingModels s1" using d1 child unfolding placedDone_def by blast
  then have strict: "remainingModels s1 \<subset> ?R" using sub topID by blast
  have maps: "connParentMap s1 = ?pm" "connChildMap s1 = ?cm" using frameD(1,2)[OF f] by simp_all
  have keys1: "fst ` set (models s1) = set (modelIDs s1) \<union> remainingModels s1"
  proof -
    have "fst ` set (models s1) = fst ` set (models s)"
      using frameD(6,7)[OF f] keys by blast
    then show ?thesis using keys frame_union[OF f] by simp
  qed
  have "orderInv s1"
    unfolding orderInv_def maps
    using fin sub fr1 pl1 dj1 pd1 g1 g2 keys1 by (auto intro: finite_subset)
  then show ?thesis using run strict f by blast
qed

lemma orderLoop_total:
  "orderInv s \<Longrightarrow> card (remainingModels s) < fuel \<Longrightarrow>
     \<exists>s'. orderLoop fuel s = Some s' \<and> orderInv s' \<and> remainingModels s' = {} \<and> frame s s'"
proof (induction fuel arbitrary: s)
  case 0
  then show ?case by simp
next
  case (Suc n)
  show ?case
  proof (cases "remainingModels s = {}")
    case True
    then show ?thesis using Suc.prems(1) by (simp add: frame_refl)
  next
    case False
    have c: "card (remainingModels s) \<le> n" using Suc.prems(2) by simp
    from order_step[OF Suc.prems(1) False c]
    obtain s1 where run: "appendModelIDs (Suc n)
         (QMultiMap_value (connParentMap s)
            (getTopModelID (connParentMap s) (models s) (Min (remainingModels s))))
         (connChildMap s) True s = Some s1"
      and i1: "orderInv s1" and st: "remainingModels s1 \<subset> remainingModels s" and f1: "frame s s1"
      by blast
    have fin: "finite (remainingModels s)" using Suc.prems(1) by (simp add: orderInv_def)
    have "card (remainingModels s1) < card (remainingModels s)"
      using fin st by (rule psubset_card_mono)
    then have "card (remainingModels s1) < n" using c by simp
    from Suc.IH[OF i1 this]
    obtain s' where r2: "orderLoop n s1 = Some s'" and i2: "orderInv s'"
      and e: "remainingModels s' = {}" and f2: "frame s1 s'" by blast
    have "orderLoop (Suc n) s = Some s'"
      using False run r2 by (simp add: Let_def)
    then show ?thesis using i2 e frame_trans[OF f1 f2] by blast
  qed
qed

lemma initial_orderInv:
  "orderInv (prepareModels clusters (connect (parseModels mos) cs))"
proof -
  let ?c = "connect (parseModels mos) cs"
  let ?s = "prepareModels clusters ?c"
  note cp = connect_props[where ms = "parseModels mos" and cs = cs]
  have f: "connParentMap ?s = connParentMap ?c" "models ?s = parseModels mos" "modelIDs ?s = []"
    "remainingModels ?s = fst ` set (parseModels mos)"
    "set (connChildMap ?c) \<subseteq> set (connChildMap ?s)"
    "\<forall>k \<in> fst ` set (parseModels mos). (QMultiMap_value (connParentMap ?c) k, k) \<in> set (connChildMap ?s)"
    using prepareModels_fold[OF cp(3), where clusters = clusters and ks = "map fst (models ?c)"]
    by (simp_all add: prepareModels_def cp(2,3,4))
  have fresh: "fresh ?s"
  proof -
    have "FBXModel.parentIndex (models_at (parseModels mos) k) = - 1"
      if "k \<in> fst ` set (parseModels mos)" for k
    proof -
      from that obtain m where "map_of (parseModels mos) k = Some m"
        by (metis map_of_eq_None_iff not_Some_eq)
      moreover from this have "(k, m) \<in> set (parseModels mos)" by (rule map_of_SomeD)
      then have "FBXModel.parentIndex m = - 1" by (auto simp: parseModels_def)
      ultimately show ?thesis by (simp add: models_at_def)
    qed
    then show ?thesis by (simp add: fresh_def pidx_def f)
  qed
  show ?thesis
    unfolding orderInv_def
    using fresh f(5,6) cp(1)
    by (auto simp: f(1,2,3,4) placedOK_def disj_def placedDone_def)
qed

lemma orderModels_total:
  assumes "length mos < fuel"
  shows "\<exists>s. orderModels fuel mos clusters cs = Some s \<and> orderInv s \<and> remainingModels s = {}
           \<and> distinct (modelIDs s) \<and> set (modelIDs s) = fst ` set mos"
proof -
  let ?s0 = "prepareModels clusters (connect (parseModels mos) cs)"
  have r0: "remainingModels ?s0 = fst ` set (parseModels mos)" "modelIDs ?s0 = []"
    using prepareModels_fold[OF connect_props(3), where clusters = clusters
        and ks = "map fst (parseModels mos)" and ms1 = "parseModels mos" and cs1 = cs]
    by (simp_all add: prepareModels_def connect_props)
  have k: "fst ` set (parseModels mos) = fst ` set mos"
    by (force simp: parseModels_def)
  have "card (remainingModels ?s0) \<le> length mos"
    unfolding r0 k by (rule card_keys_le)
  then have "card (remainingModels ?s0) < fuel" using assms by simp
  from orderLoop_total[OF initial_orderInv this]
  obtain s where run: "orderLoop fuel ?s0 = Some s" and inv: "orderInv s"
    and e: "remainingModels s = {}" and f: "frame ?s0 s" by blast
  have "set (modelIDs s) = fst ` set mos"
    using frame_union[OF f] by (simp add: e r0 k)
  moreover have "distinct (modelIDs s)" using inv by (simp add: orderInv_def disj_def)
  ultimately show ?thesis using run inv e by (simp add: orderModels_def)
qed

section \<open>The joint loop: lineage walk and name index\<close>

lemma cut_snoc:
  "cutAfterLastFree P (xs @ [x]) = (if P x then xs @ [x] else cutAfterLastFree P xs)"
  by (simp add: cutAfterLastFree_def)

lemma cut_cong:
  "(\<And>x. x \<in> set xs \<Longrightarrow> P x = Q x) \<Longrightarrow> cutAfterLastFree P xs = cutAfterLastFree Q xs"
  unfolding cutAfterLastFree_def
  by (intro arg_cong[where f = rev] dropWhile_cong) auto

lemma ancestors_range:
  assumes "okParents js"
  shows "- 1 \<le> idx \<Longrightarrow> idx < int (length js) \<Longrightarrow>
          \<forall>x \<in> set (ancestors js n idx). 0 \<le> x \<and> x < int (length js)"
proof (induction n arbitrary: idx)
  case 0
  then show ?case by simp
next
  case (Suc n)
  show ?case
  proof (cases "idx = - 1")
    case True
    then show ?thesis by simp
  next
    case False
    then have i: "0 \<le> idx" "nat idx < length js" using Suc.prems by simp_all
    then have p: "- 1 \<le> FBXJoint.parentIndex (js ! nat idx)"
      "FBXJoint.parentIndex (js ! nat idx) < int (length js)"
      using assms unfolding okParents_def by fastforce+
    from Suc.IH[OF p] show ?thesis using False i Suc.prems by simp
  qed
qed

lemma ancestors_append:
  assumes "okParents js"
  shows "- 1 \<le> idx \<Longrightarrow> idx < int (length js) \<Longrightarrow>
          ancestors (js @ ks) n idx = ancestors js n idx"
proof (induction n arbitrary: idx)
  case 0
  then show ?case by simp
next
  case (Suc n)
  show ?case
  proof (cases "idx = - 1")
    case True
    then show ?thesis by simp
  next
    case False
    then have i: "0 \<le> idx" "nat idx < length js" using Suc.prems by simp_all
    then have p: "- 1 \<le> FBXJoint.parentIndex (js ! nat idx)"
      "FBXJoint.parentIndex (js ! nat idx) < int (length js)"
      using assms unfolding okParents_def by fastforce+
    from Suc.IH[OF p] show ?thesis using False i by (simp add: nth_append)
  qed
qed

lemma lineageWalk_spec:
  assumes ok: "okParents js"
    and P: "\<And>k. k < length js \<Longrightarrow> P (int k) = isFree (js ! k)"
  shows "- 1 \<le> idx \<Longrightarrow> idx < int n \<Longrightarrow> idx < int (length js) \<Longrightarrow> lf < int (length lin)
     \<Longrightarrow> take (nat (lf + 1)) lin = cutAfterLastFree P lin
     \<Longrightarrow> \<exists>lf'. lineageWalk js idx lf lin = Some (lf', lin @ ancestors js n idx)
            \<and> lf' < int (length (lin @ ancestors js n idx))
            \<and> take (nat (lf' + 1)) (lin @ ancestors js n idx)
                = cutAfterLastFree P (lin @ ancestors js n idx)"
proof (induction n arbitrary: idx lf lin)
  case 0
  then have "idx = - 1" by simp
  then show ?case using 0 by (subst lineageWalk.simps) simp
next
  case (Suc n)
  show ?case
  proof (cases "idx = - 1")
    case True
    then show ?thesis using Suc.prems by (subst lineageWalk.simps) simp
  next
    case False
    then have i: "0 \<le> idx" "nat idx < length js" using Suc.prems by simp_all
    let ?p = "FBXJoint.parentIndex (js ! nat idx)"
    let ?lf = "if isFree (js ! nat idx) then int (length lin) else lf"
    have p: "- 1 \<le> ?p" "?p < idx"
      using ok i unfolding okParents_def by fastforce+
    have p2: "?p < int n" "?p < int (length js)" using p Suc.prems by simp_all
    have Pi: "P idx = isFree (js ! nat idx)" using P[OF i(2)] i(1) by simp
    have l: "?lf < int (length (lin @ [idx]))" using Suc.prems(4) by simp
    have t: "take (nat (?lf + 1)) (lin @ [idx]) = cutAfterLastFree P (lin @ [idx])"
    proof (cases "isFree (js ! nat idx)")
      case True
      then show ?thesis by (simp add: cut_snoc Pi)
    next
      case False
      have "nat (lf + 1) \<le> length lin" using Suc.prems(4) by simp
      then show ?thesis using False Suc.prems(5) by (simp add: cut_snoc Pi)
    qed
    from Suc.IH[OF p(1) p2 l t]
    obtain lf' where w: "lineageWalk js ?p ?lf (lin @ [idx]) = Some (lf', (lin @ [idx]) @ ancestors js n ?p)"
      and r: "lf' < int (length ((lin @ [idx]) @ ancestors js n ?p))"
        "take (nat (lf' + 1)) ((lin @ [idx]) @ ancestors js n ?p)
           = cutAfterLastFree P ((lin @ [idx]) @ ancestors js n ?p)"
      by blast
    have "lineageWalk js idx lf lin = Some (lf', lin @ ancestors js (Suc n) idx)"
      using False i w Suc.prems(3) by (subst lineageWalk.simps) simp
    then show ?thesis using r False by simp
  qed
qed

lemma QVector_remove_tail: "QVector_remove i (int (length xs) - i) xs = take (nat i) xs"
  by (simp add: QVector_remove_def)

lemma okParents_snoc:
  assumes "okParents js" "- 1 \<le> FBXJoint.parentIndex j" "FBXJoint.parentIndex j < int (length js)"
  shows "okParents (js @ [j])"
  unfolding okParents_def
proof (intro allI impI)
  fix i assume "i < length (js @ [j])"
  then consider "i < length js" | "i = length js" by fastforce
  then show "- 1 \<le> FBXJoint.parentIndex ((js @ [j]) ! i) \<and> FBXJoint.parentIndex ((js @ [j]) ! i) < int i"
  proof cases
    case 1
    then show ?thesis using assms(1) by (simp add: okParents_def nth_append)
  next
    case 2
    then show ?thesis using assms(2,3) by simp
  qed
qed

lemma lineageOf_append:
  assumes ok: "okParents js" and i: "i < length js"
  shows "lineageOf (js @ ks) i = lineageOf js i"
proof -
  let ?p = "FBXJoint.parentIndex (js ! i)"
  have p: "- 1 \<le> ?p" "?p < int (length js)"
    using ok i unfolding okParents_def by fastforce+
  have a: "ancestors (js @ ks) i ?p = ancestors js i ?p"
    using ok p by (rule ancestors_append)
  have r: "\<forall>x \<in> set (ancestors js i ?p). 0 \<le> x \<and> x < int (length js)"
    using ok p by (rule ancestors_range)
  have "cutAfterLastFree (\<lambda>k. isFree ((js @ ks) ! nat k)) (int i # ancestors js i ?p)
      = cutAfterLastFree (\<lambda>k. isFree (js ! nat k)) (int i # ancestors js i ?p)"
  proof (rule cut_cong)
    fix x assume "x \<in> set (int i # ancestors js i ?p)"
    then have "nat x < length js" using r i by auto
    then show "isFree ((js @ ks) ! nat x) = isFree (js ! nat x)" by (simp add: nth_append)
  qed
  then show ?thesis using i a by (simp add: lineageOf_def nth_append)
qed

lemma makeJoint_ok:
  assumes ok: "okParents js"
    and b: "- 1 \<le> FBXModel.parentIndex m" "FBXModel.parentIndex m < int (length js)"
  shows "\<exists>j. makeJoint fj js m = Some j \<and> FBXJoint.parentIndex j = FBXModel.parentIndex m \<and>
            FBXJoint.name j = FBXModel.name m \<and> isFree j = (FBXModel.name m \<in> set fj) \<and>
            freeLineage j = lineageOf (js @ [j]) (length js)"
proof -
  define free where "free = (FBXModel.name m \<in> set fj)"
  define L where "L = int (length js)"
  define P where "P = (\<lambda>k. if k = L then free else isFree (js ! nat k))"
  let ?p = "FBXModel.parentIndex m"
  let ?lf = "if free then 0 else - 1 :: int"
  have Pk: "\<And>k. k < length js \<Longrightarrow> P (int k) = isFree (js ! k)"
    by (simp add: P_def L_def)
  have t0: "take (nat (?lf + 1)) [L] = cutAfterLastFree P [L]"
    by (simp add: cutAfterLastFree_def P_def)
  have l0: "?lf < int (length [L])" by simp
  from lineageWalk_spec[OF ok Pk b(1) b(2) b(2) l0 t0]
  obtain lf' where w: "lineageWalk js ?p ?lf [L] = Some (lf', [L] @ ancestors js (length js) ?p)"
    and t: "take (nat (lf' + 1)) ([L] @ ancestors js (length js) ?p)
              = cutAfterLastFree P ([L] @ ancestors js (length js) ?p)"
    by blast
  define j where "j = \<lparr>isFree = free,
       freeLineage = QVector_remove (lf' + 1)
                       (int (length ([L] @ ancestors js (length js) ?p)) - lf' - 1)
                       ([L] @ ancestors js (length js) ?p),
       parentIndex = ?p, name = FBXModel.name m\<rparr>"
  have mk: "makeJoint fj js m = Some j"
    using w by (simp add: makeJoint_def Let_def free_def L_def j_def)
  have fl: "freeLineage j = cutAfterLastFree P (L # ancestors js (length js) ?p)"
  proof -
    have "int (length ([L] @ ancestors js (length js) ?p)) - lf' - 1
            = int (length ([L] @ ancestors js (length js) ?p)) - (lf' + 1)" by simp
    then have "freeLineage j = take (nat (lf' + 1)) ([L] @ ancestors js (length js) ?p)"
      unfolding j_def by (simp only: FBXJoint.simps QVector_remove_tail)
    then show ?thesis using t by simp
  qed
  have a: "ancestors (js @ [j]) (length js) ?p = ancestors js (length js) ?p"
    using ok b by (rule ancestors_append)
  have r: "\<forall>x \<in> set (ancestors js (length js) ?p). 0 \<le> x \<and> x < int (length js)"
    using ok b by (rule ancestors_range)
  have "cutAfterLastFree (\<lambda>k. isFree ((js @ [j]) ! nat k)) (L # ancestors js (length js) ?p)
      = cutAfterLastFree P (L # ancestors js (length js) ?p)"
  proof (rule cut_cong)
    fix x assume x: "x \<in> set (L # ancestors js (length js) ?p)"
    show "isFree ((js @ [j]) ! nat x) = P x"
    proof (cases "x = L")
      case True
      then show ?thesis by (simp add: P_def L_def j_def)
    next
      case False
      then have "0 \<le> x \<and> x < int (length js)" using x r by auto
      then have "nat x < length js" by linarith
      then show ?thesis using False by (simp add: P_def L_def nth_append)
    qed
  qed
  then have "freeLineage j = lineageOf (js @ [j]) (length js)"
    using fl a by (simp add: lineageOf_def L_def j_def)
  then show ?thesis using mk by (auto simp: j_def free_def)
qed

lemma jointsFrom_step:
  assumes inv: "jointsFrom fj ms ids g"
    and len: "length (joints g) < length ids"
    and m: "m = models_at ms (ids ! length (joints g))"
    and j: "FBXJoint.parentIndex j = FBXModel.parentIndex m" "FBXJoint.name j = FBXModel.name m"
      "isFree j = (FBXModel.name m \<in> set fj)"
      "freeLineage j = lineageOf (joints g @ [j]) (length (joints g))"
    and b: "- 1 \<le> FBXModel.parentIndex m" "FBXModel.parentIndex m < int (length (joints g))"
  shows "jointsFrom fj ms ids
           (g\<lparr>joints := joints g @ [j],
              jointIndices := (jointIndices g)(FBXModel.name m \<mapsto> int (length (joints g)) + 1)\<rparr>)"
proof -
  let ?js = "joints g" and ?js' = "joints g @ [j]"
  let ?ix' = "(jointIndices g)(FBXModel.name m \<mapsto> int (length (joints g)) + 1)"
  have ok: "okParents ?js" using inv by (simp add: jointsFrom_def)
  have old: "\<And>i. i < length ?js \<Longrightarrow>
        FBXJoint.parentIndex (?js ! i) = FBXModel.parentIndex (models_at ms (ids ! i)) \<and>
        FBXJoint.name (?js ! i) = FBXModel.name (models_at ms (ids ! i)) \<and>
        isFree (?js ! i) = (FBXModel.name (models_at ms (ids ! i)) \<in> set fj) \<and>
        freeLineage (?js ! i) = lineageOf ?js i"
    using inv unfolding jointsFrom_def by blast
  have oldix: "\<And>i. i < length ?js \<Longrightarrow>
        (\<forall>k. i < k \<and> k < length ?js \<longrightarrow> FBXJoint.name (?js ! k) \<noteq> FBXJoint.name (?js ! i))
        \<Longrightarrow> jointIndices g (FBXJoint.name (?js ! i)) = Some (int i + 1)"
    using inv unfolding jointsFrom_def by blast
  have oldnone: "\<And>nm. nm \<notin> FBXJoint.name ` set ?js \<Longrightarrow> jointIndices g nm = None"
    using inv unfolding jointsFrom_def by blast
  have ok': "okParents ?js'" using ok b by (intro okParents_snoc) (simp_all add: j(1))
  have fields: "FBXJoint.parentIndex (?js' ! i) = FBXModel.parentIndex (models_at ms (ids ! i)) \<and>
        FBXJoint.name (?js' ! i) = FBXModel.name (models_at ms (ids ! i)) \<and>
        isFree (?js' ! i) = (FBXModel.name (models_at ms (ids ! i)) \<in> set fj) \<and>
        freeLineage (?js' ! i) = lineageOf ?js' i" if "i < length ?js'" for i
  proof (cases "i < length ?js")
    case True
    then show ?thesis using old[OF True] lineageOf_append[OF ok True, of "[j]"]
      by (simp add: nth_append)
  next
    case False
    then have "i = length ?js" using that by simp
    then show ?thesis using j m by simp
  qed
  have index: "?ix' (FBXJoint.name (?js' ! i)) = Some (int i + 1)"
    if i: "i < length ?js'"
      and last: "\<forall>k. i < k \<and> k < length ?js' \<longrightarrow> FBXJoint.name (?js' ! k) \<noteq> FBXJoint.name (?js' ! i)"
    for i
  proof (cases "i < length ?js")
    case True
    have "i < length ?js \<and> length ?js < length ?js'" using True by simp
    then have "FBXJoint.name (?js' ! length ?js) \<noteq> FBXJoint.name (?js' ! i)"
      using last by blast
    then have ne: "FBXModel.name m \<noteq> FBXJoint.name (?js ! i)"
      using True by (simp add: nth_append j(2))
    have "\<forall>k. i < k \<and> k < length ?js \<longrightarrow> FBXJoint.name (?js ! k) \<noteq> FBXJoint.name (?js ! i)"
    proof (intro allI impI)
      fix k assume k: "i < k \<and> k < length ?js"
      then have "i < k \<and> k < length ?js'" by simp
      then have "FBXJoint.name (?js' ! k) \<noteq> FBXJoint.name (?js' ! i)" using last by blast
      then show "FBXJoint.name (?js ! k) \<noteq> FBXJoint.name (?js ! i)"
        using k True by (simp add: nth_append)
    qed
    from oldix[OF True this] show ?thesis using ne True by (simp add: nth_append)
  next
    case False
    then have "i = length ?js" using i by simp
    then show ?thesis by (simp add: j(2))
  qed
  have none: "?ix' nm = None" if "nm \<notin> FBXJoint.name ` set ?js'" for nm
    using that oldnone[of nm] by (auto simp: j(2))
  show ?thesis
    unfolding jointsFrom_def
    using len ok' fields index none by simp
qed

lemma convert_total:
  assumes pOK: "\<forall>i < length ids. - 1 \<le> FBXModel.parentIndex (models_at ms (ids ! i))
                  \<and> FBXModel.parentIndex (models_at ms (ids ! i)) < int i"
  shows "jointsFrom fj ms ids g \<Longrightarrow> ids = pre @ rest \<Longrightarrow> length (joints g) = length pre
     \<Longrightarrow> \<exists>g'. convertModels fj ms rest g = Some g' \<and> jointsFrom fj ms ids g'
              \<and> length (joints g') = length ids"
proof (induction rest arbitrary: g pre)
  case Nil
  then show ?case by simp
next
  case (Cons mid rest)
  let ?n = "length (joints g)"
  have n: "?n < length ids" using Cons.prems(2,3) by simp
  have mid: "ids ! ?n = mid" using Cons.prems(2,3) by simp
  define m where "m = models_at ms (ids ! ?n)"
  have b: "- 1 \<le> FBXModel.parentIndex m" "FBXModel.parentIndex m < int ?n"
    using pOK n by (simp_all add: m_def)
  have ok: "okParents (joints g)" using Cons.prems(1) by (simp add: jointsFrom_def)
  from makeJoint_ok[OF ok b, of fj]
  obtain j where mk: "makeJoint fj (joints g) m = Some j"
    and jf: "FBXJoint.parentIndex j = FBXModel.parentIndex m" "FBXJoint.name j = FBXModel.name m"
      "isFree j = (FBXModel.name m \<in> set fj)"
      "freeLineage j = lineageOf (joints g @ [j]) ?n"
    by blast
  define g1 where "g1 = g\<lparr>joints := joints g @ [j],
              jointIndices := (jointIndices g)(FBXModel.name m \<mapsto> int ?n + 1)\<rparr>"
  have i1: "jointsFrom fj ms ids g1"
    unfolding g1_def using Cons.prems(1) n m_def jf b by (rule jointsFrom_step)
  have "ids = (pre @ [mid]) @ rest" using Cons.prems(2) by simp
  moreover have "length (joints g1) = length (pre @ [mid])"
    using Cons.prems(3) by (simp add: g1_def)
  ultimately obtain g' where r: "convertModels fj ms rest g1 = Some g'"
    and i': "jointsFrom fj ms ids g'" and l': "length (joints g') = length ids"
    using Cons.IH[OF i1] by blast
  have "convertModels fj ms (mid # rest) g = Some g'"
    using mk r by (simp add: g1_def m_def mid)
  then show ?case using i' l' by blast
qed

lemma extractJoints_total:
  assumes "length mos < fuel"
  shows "\<exists>s g. orderModels fuel mos clusters cs = Some s \<and>
           extractJoints fuel mos clusters cs fj = Some g \<and>
           distinct (modelIDs s) \<and> set (modelIDs s) = fst ` set mos \<and>
           length (joints g) = length (modelIDs s) \<and>
           jointsFrom fj (models s) (modelIDs s) g"
proof -
  from orderModels_total[OF assms, of clusters cs]
  obtain s where run: "orderModels fuel mos clusters cs = Some s" and inv: "orderInv s"
    and d: "distinct (modelIDs s)" "set (modelIDs s) = fst ` set mos" by blast
  have "placedOK s" using inv by (simp add: orderInv_def)
  then have pOK: "\<forall>i < length (modelIDs s).
      - 1 \<le> FBXModel.parentIndex (models_at (models s) (modelIDs s ! i))
      \<and> FBXModel.parentIndex (models_at (models s) (modelIDs s ! i)) < int i"
    by (simp add: placedOK_def pidx_def)
  have i0: "jointsFrom fj (models s) (modelIDs s) \<lparr>joints = [], jointIndices = Map.empty\<rparr>"
    by (simp add: jointsFrom_def okParents_def)
  from convert_total[OF pOK i0, of "[]" "modelIDs s"]
  obtain g where c: "convertModels fj (models s) (modelIDs s) \<lparr>joints = [], jointIndices = Map.empty\<rparr> = Some g"
    and jf: "jointsFrom fj (models s) (modelIDs s) g" and l: "length (joints g) = length (modelIDs s)"
    by auto
  have "extractJoints fuel mos clusters cs fj = Some g"
    using run c by (simp add: extractJoints_def)
  then show ?thesis using run d jf l by blast
qed

lemma cut_none: "\<forall>x \<in> set xs. \<not> P x \<Longrightarrow> cutAfterLastFree P xs = []"
  by (simp add: cutAfterLastFree_def)

lemma ancestors_root:
  assumes "okParents js"
  shows "- 1 \<le> p \<Longrightarrow> p < int n \<Longrightarrow> p < int (length js)
     \<Longrightarrow> FBXJoint.parentIndex (js ! nat q) = p
     \<Longrightarrow> FBXJoint.parentIndex (js ! nat (last (q # ancestors js n p))) = - 1"
proof (induction n arbitrary: p q)
  case 0
  then show ?case by simp
next
  case (Suc n)
  show ?case
  proof (cases "p = - 1")
    case True
    then show ?thesis using Suc.prems by simp
  next
    case False
    then have i: "0 \<le> p" "nat p < length js" using Suc.prems by simp_all
    let ?p' = "FBXJoint.parentIndex (js ! nat p)"
    have p': "- 1 \<le> ?p'" "?p' < p"
      using assms i unfolding okParents_def by fastforce+
    have "?p' < int n" "?p' < int (length js)" using p' Suc.prems by simp_all
    from Suc.IH[OF p'(1) this refl] show ?thesis using False by simp
  qed
qed

section \<open>Meshes: lemmas\<close>

lemma QVector_indexOf_first:
  assumes "x \<in> set xs"
  shows "0 \<le> QVector_indexOf xs x" "nat (QVector_indexOf xs x) < length xs"
    "xs ! nat (QVector_indexOf xs x) = x"
    "\<forall>k < nat (QVector_indexOf xs x). xs ! k \<noteq> x"
proof -
  let ?n = "length (takeWhile (\<lambda>y. y \<noteq> x) xs)"
  have i: "QVector_indexOf xs x = int ?n" using assms by (simp add: QVector_indexOf_def)
  have "dropWhile (\<lambda>y. y \<noteq> x) xs \<noteq> []"
    using assms by (auto simp: dropWhile_eq_Nil_conv)
  then have "0 < length (dropWhile (\<lambda>y. y \<noteq> x) xs)" by simp
  moreover have "length xs = ?n + length (dropWhile (\<lambda>y. y \<noteq> x) xs)"
    by (metis length_append takeWhile_dropWhile_id)
  ultimately have lt: "?n < length xs" by simp
  show "0 \<le> QVector_indexOf xs x" by (simp add: i)
  show "nat (QVector_indexOf xs x) < length xs" using lt by (simp add: i)
  have "\<not> (xs ! ?n \<noteq> x)" using lt by (rule nth_length_takeWhile)
  then show "xs ! nat (QVector_indexOf xs x) = x" by (simp add: i)
  have "xs ! k \<noteq> x" if "k < ?n" for k
  proof -
    have "takeWhile (\<lambda>y. y \<noteq> x) xs ! k \<in> set (takeWhile (\<lambda>y. y \<noteq> x) xs)"
      using that by simp
    then have "takeWhile (\<lambda>y. y \<noteq> x) xs ! k \<noteq> x" by (auto dest: set_takeWhileD)
    then show ?thesis using that by (simp add: takeWhile_nth)
  qed
  then show "\<forall>k < nat (QVector_indexOf xs x). xs ! k \<noteq> x" by (simp add: i)
qed

lemma QVector_indexOf_absent: "x \<notin> set xs \<Longrightarrow> QVector_indexOf xs x = - 1"
  by (simp add: QVector_indexOf_def)

section \<open>Skin weights: lemmas\<close>

lemma topInv_replace:
  assumes inv: "topInv A I ps" and len: "length A = length I" and k: "k < length A"
    and min: "\<forall>s \<in> set A. A ! k \<le> s" and w: "A ! k \<le> w"
  shows "topInv (A[k := w]) (I[k := i]) (ps @ [(w, i)])"
proof -
  from inv obtain rest where r: "mset (zip A I) + rest = mset ps + replicate_mset 4 (0, 0)"
    and le: "\<forall>r \<in># rest. \<forall>s \<in> set A. fst r \<le> s"
    unfolding topInv_def by blast
  let ?old = "(A ! k, I ! k)"
  have kz: "k < length (zip A I)" using k len by simp
  have zk: "zip A I ! k = ?old" using k len by simp
  have upd: "zip (A[k := w]) (I[k := i]) = (zip A I)[k := (w, i)]"
    by (simp add: zip_update)
  have m: "mset ((zip A I)[k := (w, i)]) = add_mset (w, i) (mset (zip A I) - {#?old#})"
    using kz zk by (simp add: mset_update)
  have mem: "?old \<in># mset (zip A I)" using kz zk by (metis nth_mem set_mset_mset)
  have "mset (zip (A[k := w]) (I[k := i])) + add_mset ?old rest
          = add_mset (w, i) (mset (zip A I) + rest)"
    unfolding upd m using mem by simp
  then have e: "mset (zip (A[k := w]) (I[k := i])) + add_mset ?old rest
          = mset (ps @ [(w, i)]) + replicate_mset 4 (0, 0)"
    using r by simp
  have b: "\<forall>r \<in># add_mset ?old rest. \<forall>s \<in> set (A[k := w]). fst r \<le> s"
  proof (intro ballI)
    fix r s assume r: "r \<in># add_mset ?old rest" and s: "s \<in> set (A[k := w])"
    have ak: "A ! k \<in> set A" using k by simp
    have rk: "fst r \<le> A ! k"
    proof (cases "r = ?old")
      case True then show ?thesis by simp
    next
      case False
      then have "r \<in># rest" using r by simp
      then show ?thesis using le ak by blast
    qed
    from s have "s = w \<or> s \<in> set A" using set_update_subset_insert[of A k w] by auto
    then show "fst r \<le> s"
    proof
      assume "s = w" then show ?thesis using rk w by simp
    next
      assume "s \<in> set A" then show ?thesis using rk min by force
    qed
  qed
  show ?thesis unfolding topInv_def using e b by blast
qed

lemma topInv_keep:
  assumes inv: "topInv A I ps" and w: "\<forall>s \<in> set A. w \<le> s"
  shows "topInv A I (ps @ [(w, i)])"
proof -
  from inv obtain rest where r: "mset (zip A I) + rest = mset ps + replicate_mset 4 (0, 0)"
    and le: "\<forall>r \<in># rest. \<forall>s \<in> set A. fst r \<le> s"
    unfolding topInv_def by blast
  have "mset (zip A I) + add_mset (w, i) rest = mset (ps @ [(w, i)]) + replicate_mset 4 (0, 0)"
    using r by simp
  moreover have "\<forall>r \<in># add_mset (w, i) rest. \<forall>s \<in> set A. fst r \<le> s"
    using le w by auto
  ultimately show ?thesis unfolding topInv_def by blast
qed

lemma replicate_4: "replicate 4 x = [x, x, x, x]"
  by (simp add: eval_nat_numeral)

lemma replicate_mset_4: "replicate_mset 4 x = {#x, x, x, x#}"
  by (simp add: eval_nat_numeral)

lemma topInv_initial: "topInv (replicate 4 0) (replicate 4 0) []"
proof -
  have e: "mset (zip (replicate 4 (0::real)) (replicate 4 (0::int))) + {#}
               = mset [] + replicate_mset 4 (0, 0)"
    unfolding replicate_4 replicate_mset_4 by simp
  show ?thesis
    unfolding topInv_def
  proof (intro exI[of _ "{#}"] conjI)
    show "mset (zip (replicate 4 (0::real)) (replicate 4 (0::int))) + {#}
               = mset [] + replicate_mset 4 (0, 0)" by (rule e)
    show "\<forall>r\<in>#{#}. \<forall>s\<in>set (replicate 4 (0::real)). fst (r :: real \<times> int) \<le> s" by simp
  qed
qed

lemma slots_length: "v * 4 + 4 \<le> length xs \<Longrightarrow> length (slots xs v) = 4"
  by (simp add: slots_def)

lemma slots_nth: "v * 4 + 4 \<le> length xs \<Longrightarrow> k < 4 \<Longrightarrow> slots xs v ! k = xs ! (v * 4 + k)"
  by (simp add: slots_def)

lemma slots_update_same:
  "k < 4 \<Longrightarrow> slots (xs[u * 4 + k := y]) u = (slots xs u)[k := y]"
  by (simp add: slots_def drop_update_swap take_update_swap)

lemma slots_update_other:
  assumes "v \<noteq> u" "k < 4"
  shows "slots (xs[u * 4 + k := y]) v = slots xs v"
proof (cases "v < u")
  case True
  then have "v * 4 + 4 \<le> u * 4 + k" by simp
  then have "drop (v * 4) (xs[u * 4 + k := y]) = (drop (v * 4) xs)[u * 4 + k - v * 4 := y]"
    and "4 \<le> u * 4 + k - v * 4"
    by (simp_all add: drop_update_swap)
  then show ?thesis by (simp add: slots_def take_update_cancel)
next
  case False
  then have "u * 4 + k < v * 4" using assms by simp
  then show ?thesis by (simp add: slots_def drop_update_cancel)
qed

lemma slots_replicate: "v < n \<Longrightarrow> slots (replicate (n * 4) x) v = replicate 4 x"
proof -
  assume "v < n"
  then have "4 \<le> n * 4 - v * 4" by simp
  then have "min (n * 4 - v * 4) 4 = 4" by simp
  then show ?thesis by (simp add: slots_def min.commute)
qed

lemma slots_set: "v * 4 + 4 \<le> length xs \<Longrightarrow> set (slots xs v) = {xs ! (v * 4 + k) | k. k < 4}"
proof -
  assume l: "v * 4 + 4 \<le> length xs"
  have "set (slots xs v) = {slots xs v ! k | k. k < length (slots xs v)}"
    by (rule set_conv_nth)
  also have "\<dots> = {slots xs v ! k | k. k < 4}" using l by (simp add: slots_length)
  also have "\<dots> = {xs ! (v * 4 + k) | k. k < 4}"
    using slots_nth[OF l] by (intro Collect_cong) (metis (no_types))
  finally show ?thesis .
qed

text \<open>The scan: what the final \<open>k\<close>, lowest index and lowest weight are.\<close>

lemma scanSlots_spec:
  "k \<le> 4 \<Longrightarrow> scanSlots acc wi k li lw = (k', li', lw') \<Longrightarrow>
     k \<le> k' \<and> k' \<le> 4 \<and>
     (\<forall>m. k \<le> m \<and> m < k' \<longrightarrow> acc ! (wi + m) \<noteq> 0 \<and> lw' \<le> acc ! (wi + m)) \<and>
     (k' < 4 \<longrightarrow> acc ! (wi + k') = 0) \<and> lw' \<le> lw \<and>
     ((li' = li \<and> lw' = lw) \<or> (0 \<le> li' \<and> nat li' < k' \<and> acc ! (wi + nat li') = lw'))"
proof (induction acc wi k li lw rule: scanSlots.induct)
  case (1 acc wi k li lw)
  show ?case
  proof (cases "k < 4")
    case False
    then have "k = 4" using "1.prems"(1) by simp
    then show ?thesis using "1.prems"(2) by (subst (asm) scanSlots.simps) auto
  next
    case True
    show ?thesis
    proof (cases "acc ! (wi + k) = 0")
      case z: True
      then show ?thesis using True "1.prems"(2) by (subst (asm) scanSlots.simps) auto
    next
      case nz: False
      show ?thesis
      proof (cases "acc ! (wi + k) < lw")
        case lt: True
        then have run: "scanSlots acc wi (Suc k) (int k) (acc ! (wi + k)) = (k', li', lw')"
          using True nz "1.prems"(2) by (subst (asm) scanSlots.simps) simp
        have sk: "Suc k \<le> 4" using True by simp
        note ih = "1.IH"(1)[OF True nz lt sk run]
        have a: "\<forall>m. k \<le> m \<and> m < k' \<longrightarrow> acc ! (wi + m) \<noteq> 0 \<and> lw' \<le> acc ! (wi + m)"
        proof (intro allI impI)
          fix m assume m: "k \<le> m \<and> m < k'"
          show "acc ! (wi + m) \<noteq> 0 \<and> lw' \<le> acc ! (wi + m)"
          proof (cases "m = k")
            case True
            then show ?thesis using nz ih by simp
          next
            case False
            then have "Suc k \<le> m \<and> m < k'" using m by simp
            then show ?thesis using ih by blast
          qed
        qed
        have b: "(li' = li \<and> lw' = lw) \<or> (0 \<le> li' \<and> nat li' < k' \<and> acc ! (wi + nat li') = lw')"
          using ih by auto
        show ?thesis using ih a b lt by auto
      next
        case ge: False
        then have run: "scanSlots acc wi (Suc k) li lw = (k', li', lw')"
          using True nz "1.prems"(2) by (subst (asm) scanSlots.simps) simp
        have sk: "Suc k \<le> 4" using True by simp
        note ih = "1.IH"(2)[OF True nz ge sk run]
        have a: "\<forall>m. k \<le> m \<and> m < k' \<longrightarrow> acc ! (wi + m) \<noteq> 0 \<and> lw' \<le> acc ! (wi + m)"
        proof (intro allI impI)
          fix m assume m: "k \<le> m \<and> m < k'"
          show "acc ! (wi + m) \<noteq> 0 \<and> lw' \<le> acc ! (wi + m)"
          proof (cases "m = k")
            case True
            then show ?thesis using nz ge ih by simp
          next
            case False
            then have "Suc k \<le> m \<and> m < k'" using m by simp
            then show ?thesis using ih by blast
          qed
        qed
        show ?thesis using ih a by auto
      qed
    qed
  qed
qed

lemma vertexInv_update:
  assumes inv: "vertexInv (acc, idx) u ps" and wf: "wfState (acc, idx) n" and u: "u < n"
    and k: "k < 4" and min: "\<forall>m < 4. acc ! (u * 4 + k) \<le> acc ! (u * 4 + m)"
    and w: "acc ! (u * 4 + k) \<le> w" "0 \<le> w"
  shows "vertexInv (acc[u * 4 + k := w], idx[u * 4 + k := i]) u (ps @ [(w, i)])"
proof -
  let ?A = "slots acc u" and ?I = "slots idx u"
  have l: "u * 4 + 4 \<le> length acc" "u * 4 + 4 \<le> length idx"
    using wf u by (simp_all add: wfState_def)
  have len: "length ?A = length ?I" "k < length ?A"
    using l k by (simp_all add: slots_length)
  have ak: "?A ! k = acc ! (u * 4 + k)" using l k by (simp add: slots_nth)
  have mn: "\<forall>s \<in> set ?A. ?A ! k \<le> s"
    unfolding ak slots_set[OF l(1)] using min by auto
  have t: "topInv ?A ?I ps" and nn: "\<forall>x \<in> set ?A. 0 \<le> x"
    using inv by (simp_all add: vertexInv_def)
  have t': "topInv (?A[k := w]) (?I[k := i]) (ps @ [(w, i)])"
    using t len mn by (rule topInv_replace) (simp add: ak w)
  have "\<forall>x \<in> set (?A[k := w]). 0 \<le> x"
    using nn w(2) set_update_subset_insert[of ?A k w] by auto
  then show ?thesis
    using t' k by (simp add: vertexInv_def slots_update_same)
qed

lemma storeWeight_step:
  assumes wf: "wfState st n" and u: "u < n" and w: "0 \<le> w" "w \<le> FLT_MAX"
  shows "\<exists>st'. storeWeight i w (int u) st = Inr st' \<and> wfState st' n \<and>
           (\<forall>v. v \<noteq> u \<longrightarrow> slots (fst st') v = slots (fst st) v \<and> slots (snd st') v = slots (snd st) v) \<and>
           (\<forall>ps. vertexInv st u ps \<longrightarrow> vertexInv st' u (ps @ [(w, i)]))"
proof -
  obtain acc idx where st: "st = (acc, idx)" by (cases st)
  have l: "length acc = n * 4" "length idx = n * 4" using wf by (simp_all add: wfState_def st)
  have la: "u * 4 + 4 \<le> length acc" using u l by simp
  obtain k' li' lw' where sc: "scanSlots acc (u * 4) 0 (- 1) FLT_MAX = (k', li', lw')"
    by (cases "scanSlots acc (u * 4) 0 (- 1) FLT_MAX") auto
  have sp: "k' \<le> 4"
    "\<forall>m. m < k' \<longrightarrow> acc ! (u * 4 + m) \<noteq> 0 \<and> lw' \<le> acc ! (u * 4 + m)"
    "k' < 4 \<longrightarrow> acc ! (u * 4 + k') = 0" "lw' \<le> FLT_MAX"
    "(li' = - 1 \<and> lw' = FLT_MAX) \<or> (0 \<le> li' \<and> nat li' < k' \<and> acc ! (u * 4 + nat li') = lw')"
    using scanSlots_spec[OF _ sc] by simp_all
  have range: "\<not> (int u < 0 \<or> int (length (fst st)) < int u * 4 + 4)"
    using la by (simp add: st)
  have unfold: "storeWeight i w (int u) st =
      (if k' < 4 then Inr (acc[u * 4 + k' := w], idx[u * 4 + k' := i])
       else if w > lw'
            then (if int (u * 4) + li' < 0 then Inl IndexOutOfRange
                  else Inr (acc[nat (int (u * 4) + li') := w], idx[nat (int (u * 4) + li') := i]))
            else Inr st)"
    using range sc by (simp add: storeWeight_def Let_def st)
  show ?thesis
  proof (cases "k' < 4")
    case True
    let ?st' = "(acc[u * 4 + k' := w], idx[u * 4 + k' := i])"
    have r: "storeWeight i w (int u) st = Inr ?st'" using True unfold by simp
    have z: "acc ! (u * 4 + k') = 0" using sp(3) True by simp
    have inv: "vertexInv ?st' u (ps @ [(w, i)])" if a: "vertexInv st u ps" for ps
    proof -
      have "\<forall>x \<in> set (slots acc u). 0 \<le> x" using a by (simp add: vertexInv_def st)
      then have "\<forall>m < 4. 0 \<le> acc ! (u * 4 + m)"
        unfolding slots_set[OF la] by auto
      then have "\<forall>m < 4. acc ! (u * 4 + k') \<le> acc ! (u * 4 + m)" using z by simp
      with a[unfolded st] wf[unfolded st] u True show ?thesis
        by (rule vertexInv_update) (simp_all add: z w)
    qed
    have "wfState ?st' n" using l by (simp add: wfState_def)
    moreover have "\<forall>v. v \<noteq> u \<longrightarrow> slots (fst ?st') v = slots (fst st) v \<and> slots (snd ?st') v = slots (snd st) v"
      using True by (simp add: st slots_update_other)
    ultimately show ?thesis using r inv by blast
  next
    case False
    then have k4: "k' = 4" using sp(1) by simp
    have low: "\<forall>m < 4. lw' \<le> acc ! (u * 4 + m)" using sp(2) k4 by simp
    show ?thesis
    proof (cases "w > lw'")
      case True
      then have "lw' \<noteq> FLT_MAX" using w(2) by simp
      then have li: "0 \<le> li'" "nat li' < 4" "acc ! (u * 4 + nat li') = lw'"
        using sp(5) k4 by auto
      have pos: "nat (int (u * 4) + li') = u * 4 + nat li'" using li(1) by simp
      let ?st' = "(acc[u * 4 + nat li' := w], idx[u * 4 + nat li' := i])"
      have r: "storeWeight i w (int u) st = Inr ?st'"
        using False True unfold li(1) pos by simp
      have inv: "vertexInv ?st' u (ps @ [(w, i)])" if a: "vertexInv st u ps" for ps
      proof -
        have "\<forall>m < 4. acc ! (u * 4 + nat li') \<le> acc ! (u * 4 + m)" using low li(3) by simp
        with a[unfolded st] wf[unfolded st] u li(2) show ?thesis
          by (rule vertexInv_update) (use True li(3) w in simp_all)
      qed
      have "wfState ?st' n" using l by (simp add: wfState_def)
      moreover have "\<forall>v. v \<noteq> u \<longrightarrow> slots (fst ?st') v = slots (fst st) v \<and> slots (snd ?st') v = slots (snd st) v"
        using li(2) by (simp add: st slots_update_other)
      ultimately show ?thesis using r inv by blast
    next
      case ge: False
      have r: "storeWeight i w (int u) st = Inr st" using False ge unfold by simp
      have inv: "vertexInv st u (ps @ [(w, i)])" if a: "vertexInv st u ps" for ps
      proof -
        have "\<forall>s \<in> set (slots acc u). w \<le> s"
          unfolding slots_set[OF la] using low ge by fastforce
        then have "topInv (slots acc u) (slots idx u) (ps @ [(w, i)])"
          using a by (intro topInv_keep) (simp_all add: vertexInv_def st)
        then show ?thesis using a by (simp add: vertexInv_def st)
      qed
      show ?thesis using r inv wf by blast
    qed
  qed
qed


lemma foreachE_append:
  "foreachE f (xs @ ys) s = (case foreachE f xs s of Inl e \<Rightarrow> Inl e | Inr s' \<Rightarrow> foreachE f ys s')"
  by (induction xs arbitrary: s) (auto split: sum.splits)

lemma foreachE_cong_on:
  "(\<And>x s. x \<in> set xs \<Longrightarrow> f x s = g x s) \<Longrightarrow> foreachE f xs s = foreachE g xs s"
  by (induction xs arbitrary: s) (auto split: sum.splits)

lemma foreachE_map: "foreachE f (map h xs) s = foreachE (\<lambda>x. f (h x)) xs s"
  by (induction xs arbitrary: s) (auto split: sum.splits)

lemma foreachE_concat:
  "foreachE (\<lambda>x s. foreachE f (h x) s) xs s = foreachE f (concat (map h xs)) s"
  by (induction xs arbitrary: s) (auto simp: foreachE_append split: sum.splits)

lemma storeTriple_eq: "(\<lambda>x. storeTriple (x, i, w)) = storeWeight i w"
  by (intro ext) (simp add: storeTriple_def)

lemma accumulateCluster_flat:
  assumes "length (indices c) \<le> length (weights c)"
  shows "accumulateCluster toFloat newIndices c i st =
     foreachE storeTriple
       (concat (map (\<lambda>j. map (\<lambda>newIndex. (newIndex, i, toFloat (weights c ! j)))
                            (QMultiHash_values newIndices (indices c ! j)))
                  [0 ..< length (indices c)])) st"
proof -
  have body: "(case QList_at (weights c) (int j) of
                   Inl e \<Rightarrow> Inl e
                 | Inr weight \<Rightarrow>
                     foreachE (storeWeight i (toFloat weight))
                       (QMultiHash_values newIndices (indices c ! j)) s)
        = foreachE storeTriple (map (\<lambda>newIndex. (newIndex, i, toFloat (weights c ! j)))
                            (QMultiHash_values newIndices (indices c ! j))) s"
    if "j \<in> set [0 ..< length (indices c)]" for j s
  proof -
    have "j < length (weights c)" using that assms by simp
    then have "QList_at (weights c) (int j) = Inr (weights c ! j)" by (simp add: QList_at_def)
    then show ?thesis by (simp add: foreachE_map storeTriple_eq)
  qed
  show ?thesis
    unfolding accumulateCluster_def
    by (subst foreachE_cong_on[OF body]) (simp_all add: foreachE_concat)
qed

lemma accumulateWeights_flat:
  assumes "wellFormedSkin toFloat newIndices clusters clusterIDs n"
  shows "accumulateWeights toFloat newIndices clusters clusterIDs n =
     foreachE storeTriple (fannedTriples toFloat newIndices clusters clusterIDs)
       (replicate (n * 4) 0, replicate (n * 4) 0)"
proof -
  have body: "accumulateCluster toFloat newIndices (clusters_at clusters (clusterIDs ! i)) (int i) s
        = foreachE storeTriple
            (concat (map (\<lambda>j.
               map (\<lambda>newIndex. (newIndex, int i, toFloat (weights (clusters_at clusters (clusterIDs ! i)) ! j)))
                 (QMultiHash_values newIndices (indices (clusters_at clusters (clusterIDs ! i)) ! j)))
               [0 ..< length (indices (clusters_at clusters (clusterIDs ! i)))])) s"
    if "i \<in> set [0 ..< length clusterIDs]" for i s
  proof -
    have "clusterIDs ! i \<in> set clusterIDs" using that by simp
    then have "length (indices (clusters_at clusters (clusterIDs ! i)))
          \<le> length (weights (clusters_at clusters (clusterIDs ! i)))"
      using assms unfolding wellFormedSkin_def by blast
    then show ?thesis by (rule accumulateCluster_flat)
  qed
  show ?thesis
    unfolding accumulateWeights_def fannedTriples_def
    by (subst foreachE_cong_on[OF body]) (simp_all add: foreachE_concat)
qed

lemma fannedTriples_ok:
  assumes "wellFormedSkin toFloat newIndices clusters clusterIDs n"
    and "t \<in> set (fannedTriples toFloat newIndices clusters clusterIDs)"
  shows "0 \<le> fst t \<and> fst t < int n \<and> 0 \<le> snd (snd t) \<and> snd (snd t) \<le> FLT_MAX"
proof -
  from assms(2) obtain i j where i: "i < length clusterIDs"
    and j: "j < length (indices (clusters_at clusters (clusterIDs ! i)))"
    and m: "fst t \<in> set (QMultiHash_values newIndices (indices (clusters_at clusters (clusterIDs ! i)) ! j))"
    and w: "snd (snd t) = toFloat (weights (clusters_at clusters (clusterIDs ! i)) ! j)"
    unfolding fannedTriples_def by auto
  have c: "clusterIDs ! i \<in> set clusterIDs" using i by simp
  have jj: "j \<in> set [0 ..< length (indices (clusters_at clusters (clusterIDs ! i)))]" using j by simp
  show ?thesis
    using assms(1) c jj m unfolding wellFormedSkin_def w by blast
qed

lemma vertexInv_slots:
  "slots (fst st') v = slots (fst st) v \<Longrightarrow> slots (snd st') v = slots (snd st) v
     \<Longrightarrow> vertexInv st v ps \<Longrightarrow> vertexInv st' v ps"
  by (simp add: vertexInv_def)

lemma influences_Cons:
  "influences (t # ts) v =
     (if fst t = int v then [(snd (snd t), fst (snd t))] else []) @ influences ts v"
  by (simp add: influences_def)

lemma foreach_triples:
  "wfState st n \<Longrightarrow>
   \<forall>t \<in> set ts. 0 \<le> fst t \<and> fst t < int n \<and> 0 \<le> snd (snd t) \<and> snd (snd t) \<le> FLT_MAX \<Longrightarrow>
   \<exists>st'. foreachE storeTriple ts st = Inr st' \<and> wfState st' n \<and>
         (\<forall>v ps. vertexInv st v ps \<longrightarrow> vertexInv st' v (ps @ influences ts v))"
proof (induction ts arbitrary: st)
  case Nil
  then show ?case by (simp add: influences_def)
next
  case (Cons t ts)
  obtain m i w where t: "t = (m, i, w)" by (cases t) auto
  have ok: "0 \<le> m" "m < int n" "0 \<le> w" "w \<le> FLT_MAX" using Cons.prems(2) by (simp_all add: t)
  define u where "u = nat m"
  have u: "u < n" "int u = m" using ok by (simp_all add: u_def)
  from storeWeight_step[OF Cons.prems(1) u(1) ok(3,4), of i]
  obtain st1 where s1: "storeWeight i w (int u) st = Inr st1" and wf1: "wfState st1 n"
    and other: "\<forall>v. v \<noteq> u \<longrightarrow> slots (fst st1) v = slots (fst st) v \<and> slots (snd st1) v = slots (snd st) v"
    and same: "\<forall>ps. vertexInv st u ps \<longrightarrow> vertexInv st1 u (ps @ [(w, i)])"
    by blast
  have "\<forall>t \<in> set ts. 0 \<le> fst t \<and> fst t < int n \<and> 0 \<le> snd (snd t) \<and> snd (snd t) \<le> FLT_MAX"
    using Cons.prems(2) by simp
  from Cons.IH[OF wf1 this]
  obtain st' where r: "foreachE storeTriple ts st1 = Inr st'" and wf': "wfState st' n"
    and inv: "\<forall>v ps. vertexInv st1 v ps \<longrightarrow> vertexInv st' v (ps @ influences ts v)"
    by blast
  have run: "foreachE storeTriple (t # ts) st = Inr st'"
    using s1 r by (simp add: storeTriple_def t u(2))
  have "vertexInv st' v (ps @ influences (t # ts) v)" if a: "vertexInv st v ps" for v ps
  proof (cases "v = u")
    case True
    then have "vertexInv st1 v (ps @ [(w, i)])" using a same by simp
    then have "vertexInv st' v ((ps @ [(w, i)]) @ influences ts v)" using inv by blast
    then show ?thesis using True by (simp add: influences_Cons t u(2))
  next
    case False
    then have "vertexInv st1 v ps" using a other by (intro vertexInv_slots[of st1 v st]) simp_all
    then have "vertexInv st' v (ps @ influences ts v)" using inv by blast
    moreover have "m \<noteq> int v" using False u(2) by auto
    ultimately show ?thesis by (simp add: influences_Cons t)
  qed
  then show ?case using run wf' by blast
qed

lemma initial_vertexInv:
  "v < n \<Longrightarrow> vertexInv (replicate (n * 4) 0, replicate (n * 4) 0) v []"
  by (simp add: vertexInv_def slots_replicate topInv_initial)

lemma accumulateWeights_inv:
  assumes "wellFormedSkin toFloat newIndices clusters clusterIDs n"
  shows "\<exists>st. accumulateWeights toFloat newIndices clusters clusterIDs n = Inr st \<and> wfState st n \<and>
           (\<forall>v < n. vertexInv st v (influences (fannedTriples toFloat newIndices clusters clusterIDs) v))"
proof -
  let ?st0 = "(replicate (n * 4) (0::real), replicate (n * 4) (0::int))"
  have wf0: "wfState ?st0 n" by (simp add: wfState_def)
  from foreach_triples[OF wf0, of "fannedTriples toFloat newIndices clusters clusterIDs"]
    fannedTriples_ok[OF assms]
  obtain st' where r: "foreachE storeTriple (fannedTriples toFloat newIndices clusters clusterIDs) ?st0 = Inr st'"
    and wf: "wfState st' n"
    and inv: "\<forall>v ps. vertexInv ?st0 v ps \<longrightarrow>
                vertexInv st' v (ps @ influences (fannedTriples toFloat newIndices clusters clusterIDs) v)"
    by blast
  have "vertexInv st' v (influences (fannedTriples toFloat newIndices clusters clusterIDs) v)" if "v < n" for v
    using inv initial_vertexInv[OF that] by fastforce
  then show ?thesis using r wf by (simp add: accumulateWeights_flat[OF assms])
qed

section \<open>Normalization: lemmas\<close>

lemma roundToEven_error: "\<bar>of_int (roundToEven q) - q\<bar> \<le> 1 / 2"
proof -
  have b: "of_int \<lfloor>q\<rfloor> \<le> q" "q < of_int \<lfloor>q\<rfloor> + 1" by linarith+
  consider (lo) "q - of_int \<lfloor>q\<rfloor> < 1 / 2" | (hi) "1 / 2 < q - of_int \<lfloor>q\<rfloor>"
    | (tie) "q - of_int \<lfloor>q\<rfloor> = 1 / 2" by linarith
  then show ?thesis
  proof cases
    case lo
    then have "roundToEven q = \<lfloor>q\<rfloor>" by (simp add: roundToEven_def)
    then show ?thesis using lo b by (simp add: abs_le_iff)
  next
    case hi
    then have "roundToEven q = \<lfloor>q\<rfloor> + 1" by (simp add: roundToEven_def)
    then show ?thesis using hi b by (simp add: abs_le_iff)
  next
    case tie
    then have "roundToEven q = \<lfloor>q\<rfloor> \<or> roundToEven q = \<lfloor>q\<rfloor> + 1"
      by (simp add: roundToEven_def)
    then show ?thesis using tie by (auto simp: abs_le_iff)
  qed
qed

lemma roundToEven_of_int: "roundToEven (of_int n) = n"
  by (simp add: roundToEven_def)

lemma roundToEven_down:
  assumes "of_int n \<le> q" "q < of_int n + 1 / 2"
  shows "roundToEven q = n"
proof -
  have "\<lfloor>q\<rfloor> = n" using assms by (simp add: floor_eq_iff)
  then show ?thesis using assms by (simp add: roundToEven_def)
qed

lemma roundToEven_up:
  assumes "of_int n - 1 / 2 < q" "q \<le> of_int n"
  shows "roundToEven q = n"
proof (cases "q = of_int n")
  case True
  then show ?thesis by (simp add: roundToEven_of_int)
next
  case False
  then have "\<lfloor>q\<rfloor> = n - 1" using assms by (simp add: floor_eq_iff)
  then show ?thesis using assms by (simp add: roundToEven_def)
qed

lemma float32_zero: "float32 0 = 0"
  by (simp add: float32_def)

lemma float32_error:
  "\<bar>float32 x - x\<bar> \<le> \<bar>x\<bar> / 2 ^ 24"
proof (cases "x = 0")
  case True
  then show ?thesis by (simp add: float32_def)
next
  case False
  define e where "e = \<lfloor>log 2 \<bar>x\<bar>\<rfloor>"
  define ulp :: real where "ulp = 2 powr (of_int e - 23)"
  have pos: "0 < \<bar>x\<bar>" using False by simp
  have up: "0 < ulp" by (simp add: ulp_def)
  have "of_int e \<le> log 2 \<bar>x\<bar>" by (simp add: e_def)
  then have "(2::real) powr of_int e \<le> 2 powr log 2 \<bar>x\<bar>" by (intro powr_mono) simp_all
  then have le: "(2::real) powr of_int e \<le> \<bar>x\<bar>" using pos by simp
  have u: "ulp = 2 powr of_int e / 2 ^ 23"
    unfolding ulp_def by (simp add: powr_diff)
  have f: "float32 x = of_int (roundToEven (x / ulp)) * ulp"
    using False by (simp add: float32_def e_def ulp_def)
  have "float32 x - x = (of_int (roundToEven (x / ulp)) - x / ulp) * ulp"
    unfolding f using up by (simp add: algebra_simps)
  then have "\<bar>float32 x - x\<bar> = \<bar>of_int (roundToEven (x / ulp)) - x / ulp\<bar> * ulp"
    using up by (simp add: abs_mult)
  also have "\<dots> \<le> 1 / 2 * ulp"
    using roundToEven_error[of "x / ulp"] up by (intro mult_right_mono) simp_all
  also have "\<dots> = 2 powr of_int e / 2 ^ 24" unfolding u by simp
  also have "\<dots> \<le> \<bar>x\<bar> / 2 ^ 24" using le by (simp add: divide_right_mono)
  finally show ?thesis .
qed

lemma float32_bounds:
  assumes "0 \<le> x"
  shows "(1 - 1 / 2 ^ 24) * x \<le> float32 x" "float32 x \<le> (1 + 1 / 2 ^ 24) * x"
proof -
  have "\<bar>float32 x - x\<bar> \<le> x / 2 ^ 24" using float32_error[of x] assms by simp
  then have "float32 x - x \<le> x / 2 ^ 24" "- (x / 2 ^ 24) \<le> float32 x - x"
    by (simp_all only: abs_le_iff minus_diff_eq) linarith+
  then show "(1 - 1 / 2 ^ 24) * x \<le> float32 x" "float32 x \<le> (1 + 1 / 2 ^ 24) * x"
    by (simp_all add: algebra_simps)
qed

lemma float32_at:
  assumes "2 powr of_int k \<le> \<bar>x\<bar>" "\<bar>x\<bar> < 2 powr (of_int k + 1)"
  shows "float32 x = of_int (roundToEven (x / 2 powr (of_int k - 23))) * 2 powr (of_int k - 23)"
proof -
  have "0 < (2::real) powr of_int k" by simp
  then have pos: "0 < \<bar>x\<bar>" using assms(1) by linarith
  then have "\<lfloor>log 2 \<bar>x\<bar>\<rfloor> = k"
    using assms by (subst floor_log_eq_powr_iff) simp_all
  then show ?thesis using pos by (simp add: float32_def)
qed

lemma float32_exact:
  assumes "2 powr of_int k \<le> \<bar>x\<bar>" "\<bar>x\<bar> < 2 powr (of_int k + 1)"
    and "x / 2 powr (of_int k - 23) = of_int n"
  shows "float32 x = x"
proof -
  have "float32 x = of_int n * 2 powr (of_int k - 23)"
    unfolding float32_at[OF assms(1,2)] assms(3) by (simp add: roundToEven_of_int)
  also have "\<dots> = x" unfolding assms(3)[symmetric] by simp
  finally show ?thesis .
qed

lemma float32_half: "float32 (1 / 2) = 1 / 2"
  by (rule float32_exact[of "- 1" _ "2 ^ 23"]) (simp_all add: powr_neg_numeral)

lemma float32_one: "float32 1 = 1"
  by (rule float32_exact[of 0 _ "2 ^ 23"]) (simp_all add: powr_neg_numeral)

lemma float32_65535: "float32 65535 = 65535"
  by (rule float32_exact[of 15 _ "65535 * 2 ^ 8"]) (simp_all add: powr_neg_numeral)

lemma float32_half_scaled: "float32 (65535 / 2) = 65535 / 2"
  by (rule float32_exact[of 14 _ "65535 * 2 ^ 8"]) (simp_all add: powr_neg_numeral)

lemma float32_ALMOST_HALF: "float32 ALMOST_HALF = ALMOST_HALF"
  unfolding ALMOST_HALF_def
  by (rule float32_exact[of "- 2" _ "16743662"]) (simp_all add: powr_neg_numeral)

lemma float32_half_biased: "float32 (65535 / 2 + ALMOST_HALF) = 16777215 / 512"
proof -
  have "float32 (65535 / 2 + ALMOST_HALF)
      = of_int (roundToEven ((65535 / 2 + ALMOST_HALF) / 2 powr (of_int 14 - 23)))
          * 2 powr (of_int 14 - 23)"
    by (rule float32_at) (simp_all add: ALMOST_HALF_def)
  moreover have "roundToEven ((65535 / 2 + ALMOST_HALF) / 2 powr (of_int 14 - 23)) = 16777215"
    by (rule roundToEven_down) (simp_all add: ALMOST_HALF_def powr_neg_numeral)
  ultimately show ?thesis by (simp add: powr_neg_numeral)
qed

lemma uint16_of_float_floor:
  assumes "0 \<le> x" "x < 65536"
  shows "int (uint16_of_float x) = \<lfloor>x\<rfloor>"
proof -
  have "0 \<le> \<lfloor>x\<rfloor>" using assms(1) by simp
  moreover have "\<lfloor>x\<rfloor> < 65536" using assms(2) by (simp add: floor_less_iff)
  ultimately show ?thesis using assms(1) by (simp add: uint16_of_float_def)
qed

lemma floor4_range:
  fixes y0 y1 y2 y3 :: real
  assumes lo: "65536 < y0 + y1 + y2 + y3" and hi: "y0 + y1 + y2 + y3 < 65538"
  shows "65533 \<le> \<lfloor>y0\<rfloor> + \<lfloor>y1\<rfloor> + \<lfloor>y2\<rfloor> + \<lfloor>y3\<rfloor>"
    and "\<lfloor>y0\<rfloor> + \<lfloor>y1\<rfloor> + \<lfloor>y2\<rfloor> + \<lfloor>y3\<rfloor> \<le> 65537"
proof -
  have up: "real_of_int \<lfloor>y0\<rfloor> \<le> y0" "real_of_int \<lfloor>y1\<rfloor> \<le> y1"
    "real_of_int \<lfloor>y2\<rfloor> \<le> y2" "real_of_int \<lfloor>y3\<rfloor> \<le> y3"
    by (rule of_int_floor_le)+
  have dn: "y0 < real_of_int \<lfloor>y0\<rfloor> + 1" "y1 < real_of_int \<lfloor>y1\<rfloor> + 1"
    "y2 < real_of_int \<lfloor>y2\<rfloor> + 1" "y3 < real_of_int \<lfloor>y3\<rfloor> + 1"
    by (rule real_of_int_floor_add_one_gt)+
  have ri: "real_of_int (\<lfloor>y0\<rfloor> + \<lfloor>y1\<rfloor> + \<lfloor>y2\<rfloor> + \<lfloor>y3\<rfloor>)
      = real_of_int \<lfloor>y0\<rfloor> + real_of_int \<lfloor>y1\<rfloor> + real_of_int \<lfloor>y2\<rfloor> + real_of_int \<lfloor>y3\<rfloor>"
    by (simp only: of_int_add)
  have "real_of_int (\<lfloor>y0\<rfloor> + \<lfloor>y1\<rfloor> + \<lfloor>y2\<rfloor> + \<lfloor>y3\<rfloor>) < 65538"
    unfolding ri using up hi by linarith
  then have "real_of_int (\<lfloor>y0\<rfloor> + \<lfloor>y1\<rfloor> + \<lfloor>y2\<rfloor> + \<lfloor>y3\<rfloor>) < real_of_int 65538" by simp
  then have "\<lfloor>y0\<rfloor> + \<lfloor>y1\<rfloor> + \<lfloor>y2\<rfloor> + \<lfloor>y3\<rfloor> < 65538" by (simp only: of_int_less_iff)
  then show "\<lfloor>y0\<rfloor> + \<lfloor>y1\<rfloor> + \<lfloor>y2\<rfloor> + \<lfloor>y3\<rfloor> \<le> 65537" by simp
  have "65532 < real_of_int (\<lfloor>y0\<rfloor> + \<lfloor>y1\<rfloor> + \<lfloor>y2\<rfloor> + \<lfloor>y3\<rfloor>)"
    unfolding ri using dn lo by linarith
  then have "real_of_int 65532 < real_of_int (\<lfloor>y0\<rfloor> + \<lfloor>y1\<rfloor> + \<lfloor>y2\<rfloor> + \<lfloor>y3\<rfloor>)" by simp
  then have "65532 < \<lfloor>y0\<rfloor> + \<lfloor>y1\<rfloor> + \<lfloor>y2\<rfloor> + \<lfloor>y3\<rfloor>" by (simp only: of_int_less_iff)
  then show "65533 \<le> \<lfloor>y0\<rfloor> + \<lfloor>y1\<rfloor> + \<lfloor>y2\<rfloor> + \<lfloor>y3\<rfloor>" by simp
qed

text \<open>The float sum of four floats that are not negative, against the exact sum.\<close>

lemma float_total_bounds:
  fixes a0 a1 a2 a3 :: real
  assumes nn: "0 \<le> a0" "0 \<le> a1" "0 \<le> a2" "0 \<le> a3"
  shows "(1 - 1 / 2 ^ 22) * (a0 + a1 + a2 + a3)
           \<le> float32 (float32 (float32 (a0 + a1) + a2) + a3)"
    and "float32 (float32 (float32 (a0 + a1) + a2) + a3)
           \<le> (1 + 1 / 2 ^ 22) * (a0 + a1 + a2 + a3)"
proof -
  define T1 where "T1 = float32 (a0 + a1)"
  define T2 where "T2 = float32 (T1 + a2)"
  define T3 where "T3 = float32 (T2 + a3)"
  have p1: "0 \<le> a0 + a1" using nn by simp
  note b1 = float32_bounds[OF p1, folded T1_def]
  have q1: "0 \<le> T1" using b1(1) p1 by (simp add: order_trans[rotated])
  have p2: "0 \<le> T1 + a2" using q1 nn by simp
  note b2 = float32_bounds[OF p2, folded T2_def]
  have q2: "0 \<le> T2" using b2(1) p2 by (simp add: order_trans[rotated])
  have p3: "0 \<le> T2 + a3" using q2 nn by simp
  note b3 = float32_bounds[OF p3, folded T3_def]
  have "(1 - 1 / 2 ^ 22) * (a0 + a1 + a2 + a3) \<le> T3"
    using b1(1) b2(1) b3(1) nn by (simp add: algebra_simps) 
  moreover have "T3 \<le> (1 + 1 / 2 ^ 22) * (a0 + a1 + a2 + a3)"
    using b1(2) b2(2) b3(2) nn by (simp add: algebra_simps)
  ultimately show "(1 - 1 / 2 ^ 22) * (a0 + a1 + a2 + a3)
           \<le> float32 (float32 (float32 (a0 + a1) + a2) + a3)"
    and "float32 (float32 (float32 (a0 + a1) + a2) + a3)
           \<le> (1 + 1 / 2 ^ 22) * (a0 + a1 + a2 + a3)"
    unfolding T3_def T2_def T1_def by simp_all
qed

lemma float_stored_bounds:
  fixes a0 a1 a2 a3 :: real
  assumes nn: "0 \<le> a0" "0 \<le> a1" "0 \<le> a2" "0 \<le> a3"
    and pos: "0 < a0 + a1 + a2 + a3"
    and T: "T = float32 (float32 (float32 (a0 + a1) + a2) + a3)"
    and s: "s = float32 (65535 / T)"
  shows "0 < T"
    and "65533 \<le> uint16_of_float (float32 (float32 (s * a0) + ALMOST_HALF))
               + uint16_of_float (float32 (float32 (s * a1) + ALMOST_HALF))
               + uint16_of_float (float32 (float32 (s * a2) + ALMOST_HALF))
               + uint16_of_float (float32 (float32 (s * a3) + ALMOST_HALF))"
    and "uint16_of_float (float32 (float32 (s * a0) + ALMOST_HALF))
               + uint16_of_float (float32 (float32 (s * a1) + ALMOST_HALF))
               + uint16_of_float (float32 (float32 (s * a2) + ALMOST_HALF))
               + uint16_of_float (float32 (float32 (s * a3) + ALMOST_HALF)) \<le> 65537"
proof -
  define S where "S = a0 + a1 + a2 + a3"
  define q where "q = 65535 / T"
  have tb: "(1 - 1 / 2 ^ 22) * S \<le> T" "T \<le> (1 + 1 / 2 ^ 22) * S"
    unfolding T S_def by (rule float_total_bounds[OF nn])+
  have Sp: "0 < S" using pos by (simp add: S_def)
  have "0 < (1 - 1 / 2 ^ 22) * S" using Sp by simp
  then show Tp: "0 < T" using tb(1) by linarith
  have qp: "0 < q" using Tp by (simp add: q_def)
  have qT: "q * T = 65535" using Tp by (simp add: q_def)
  define r0 where "r0 = q * a0"
  define r1 where "r1 = q * a1"
  define r2 where "r2 = q * a2"
  define r3 where "r3 = q * a3"
  define R where "R = r0 + r1 + r2 + r3"
  have rn: "0 \<le> r0" "0 \<le> r1" "0 \<le> r2" "0 \<le> r3"
    using qp nn by (simp_all add: r0_def r1_def r2_def r3_def)
  have RS: "R = q * S" by (simp add: R_def S_def r0_def r1_def r2_def r3_def algebra_simps)
  have "q * ((1 - 1 / 2 ^ 22) * S) \<le> q * T" using tb(1) qp by (intro mult_left_mono) simp_all
  then have Rl: "(1 - 1 / 2 ^ 22) * R \<le> 65535" unfolding qT RS by (simp add: algebra_simps)
  have "q * T \<le> q * ((1 + 1 / 2 ^ 22) * S)" using tb(2) qp by (intro mult_left_mono) simp_all
  then have Ru: "65535 \<le> (1 + 1 / 2 ^ 22) * R" unfolding qT RS by (simp add: algebra_simps)
  have sb: "(1 - 1 / 2 ^ 24) * q \<le> s" "s \<le> (1 + 1 / 2 ^ 24) * q"
    unfolding s q_def[symmetric] using qp by (intro float32_bounds, simp)+
  have sp: "0 \<le> s" using sb(1) qp by (simp add: order_trans[rotated])
  have stage: "0 \<le> float32 (float32 (s * a) + ALMOST_HALF) \<and>
      (1 - 1 / 2 ^ 24) * ((1 - 1 / 2 ^ 24) * ((1 - 1 / 2 ^ 24) * (q * a)) + ALMOST_HALF)
         \<le> float32 (float32 (s * a) + ALMOST_HALF) \<and>
      float32 (float32 (s * a) + ALMOST_HALF)
         \<le> (1 + 1 / 2 ^ 24) * ((1 + 1 / 2 ^ 24) * ((1 + 1 / 2 ^ 24) * (q * a)) + ALMOST_HALF)"
    if a: "0 \<le> a" for a
  proof -
    have m1: "(1 - 1 / 2 ^ 24) * q * a \<le> s * a" using sb(1) a by (intro mult_right_mono)
    have m2: "s * a \<le> (1 + 1 / 2 ^ 24) * q * a" using sb(2) a by (intro mult_right_mono)
    have n1: "0 \<le> s * a" using sp a by simp
    note b1 = float32_bounds[OF n1]
    have n2: "0 \<le> float32 (s * a)" using b1(1) n1 by (simp add: order_trans[rotated])
    have n3: "0 \<le> float32 (s * a) + ALMOST_HALF" using n2 by (simp add: ALMOST_HALF_def)
    note b2 = float32_bounds[OF n3]
    have n4: "0 \<le> float32 (float32 (s * a) + ALMOST_HALF)"
      using b2(1) n3 by (simp add: order_trans[rotated])
    have l: "(1 - 1 / 2 ^ 24) * ((1 - 1 / 2 ^ 24) * ((1 - 1 / 2 ^ 24) * (q * a)) + ALMOST_HALF)
         \<le> float32 (float32 (s * a) + ALMOST_HALF)"
      using m1 b1(1) b2(1) by (simp add: algebra_simps)
    have u: "float32 (float32 (s * a) + ALMOST_HALF)
         \<le> (1 + 1 / 2 ^ 24) * ((1 + 1 / 2 ^ 24) * ((1 + 1 / 2 ^ 24) * (q * a)) + ALMOST_HALF)"
      using m2 b1(2) b2(2) by (simp add: algebra_simps)
    show ?thesis using n4 l u by simp
  qed
  define y0 where "y0 = float32 (float32 (s * a0) + ALMOST_HALF)"
  define y1 where "y1 = float32 (float32 (s * a1) + ALMOST_HALF)"
  define y2 where "y2 = float32 (float32 (s * a2) + ALMOST_HALF)"
  define y3 where "y3 = float32 (float32 (s * a3) + ALMOST_HALF)"
  note st0 = stage[OF nn(1), folded y0_def r0_def]
  note st1 = stage[OF nn(2), folded y1_def r1_def]
  note st2 = stage[OF nn(3), folded y2_def r2_def]
  note st3 = stage[OF nn(4), folded y3_def r3_def]
  have Rd: "R = r0 + r1 + r2 + r3" by (simp add: R_def)
  have yl: "0 \<le> y0" "0 \<le> y1" "0 \<le> y2" "0 \<le> y3"
    using st0 st1 st2 st3 by simp_all
  have yu: "y0 < 65536" "y1 < 65536" "y2 < 65536" "y3 < 65536"
    using st0 st1 st2 st3 rn Rd Rl by (simp_all add: ALMOST_HALF_def algebra_simps)
  have lo: "65536 < y0 + y1 + y2 + y3"
    using st0 st1 st2 st3 rn Rd Ru by (simp add: ALMOST_HALF_def algebra_simps)
  have hi: "y0 + y1 + y2 + y3 < 65538"
    using st0 st1 st2 st3 rn Rd Rl by (simp add: ALMOST_HALF_def algebra_simps)
  note b = floor4_range[OF lo hi]
  have u: "int (uint16_of_float y0) = \<lfloor>y0\<rfloor>" "int (uint16_of_float y1) = \<lfloor>y1\<rfloor>"
    "int (uint16_of_float y2) = \<lfloor>y2\<rfloor>" "int (uint16_of_float y3) = \<lfloor>y3\<rfloor>"
    by (rule uint16_of_float_floor[OF yl(1) yu(1)] uint16_of_float_floor[OF yl(2) yu(2)]
          uint16_of_float_floor[OF yl(3) yu(3)] uint16_of_float_floor[OF yl(4) yu(4)])+
  have n: "int (uint16_of_float y0 + uint16_of_float y1 + uint16_of_float y2 + uint16_of_float y3)
            = \<lfloor>y0\<rfloor> + \<lfloor>y1\<rfloor> + \<lfloor>y2\<rfloor> + \<lfloor>y3\<rfloor>"
    by (simp only: of_nat_add u)
  have "int 65533 \<le> int (uint16_of_float y0 + uint16_of_float y1 + uint16_of_float y2 + uint16_of_float y3)"
    unfolding n using b(1) by simp
  then have "65533 \<le> uint16_of_float y0 + uint16_of_float y1 + uint16_of_float y2 + uint16_of_float y3"
    by (simp only: of_nat_le_iff)
  then show "65533 \<le> uint16_of_float (float32 (float32 (s * a0) + ALMOST_HALF))
               + uint16_of_float (float32 (float32 (s * a1) + ALMOST_HALF))
               + uint16_of_float (float32 (float32 (s * a2) + ALMOST_HALF))
               + uint16_of_float (float32 (float32 (s * a3) + ALMOST_HALF))"
    unfolding y0_def y1_def y2_def y3_def .
  have "int (uint16_of_float y0 + uint16_of_float y1 + uint16_of_float y2 + uint16_of_float y3) \<le> int 65537"
    unfolding n using b(2) by simp
  then have "uint16_of_float y0 + uint16_of_float y1 + uint16_of_float y2 + uint16_of_float y3 \<le> 65537"
    by (simp only: of_nat_le_iff)
  then show "uint16_of_float (float32 (float32 (s * a0) + ALMOST_HALF))
               + uint16_of_float (float32 (float32 (s * a1) + ALMOST_HALF))
               + uint16_of_float (float32 (float32 (s * a2) + ALMOST_HALF))
               + uint16_of_float (float32 (float32 (s * a3) + ALMOST_HALF)) \<le> 65537"
    unfolding y0_def y1_def y2_def y3_def .
qed

lemma upt_4: "[j ..< j + 4] = [j, j + 1, j + 2, j + 3]" by (simp add: upt_rec)
lemma upt_3: "[j + 1 ..< j + 4] = [j + 1, j + 2, j + 3]" by (simp add: upt_rec)

lemma normalizeVertex_eq:
  "normalizeVertex acc i cw =
     (if totalOf acc i > 0
      then cw[i * 4 := stored acc i (i * 4), i * 4 + 1 := stored acc i (i * 4 + 1),
              i * 4 + 2 := stored acc i (i * 4 + 2), i * 4 + 3 := stored acc i (i * 4 + 3)]
      else cw)"
  unfolding normalizeVertex_def Let_def upt_4 upt_3 totalOf_def stored_def
  by simp

lemma slots_eq4:
  assumes "v * 4 + 4 \<le> length xs"
  shows "slots xs v = [xs ! (v * 4), xs ! (v * 4 + 1), xs ! (v * 4 + 2), xs ! (v * 4 + 3)]"
proof (rule nth_equalityI)
  show "length (slots xs v) = length [xs ! (v * 4), xs ! (v * 4 + 1), xs ! (v * 4 + 2), xs ! (v * 4 + 3)]"
    using assms by (simp add: slots_length)
next
  fix k assume "k < length (slots xs v)"
  then have k: "k < 4" using assms by (simp add: slots_length)
  then consider "k = 0" | "k = 1" | "k = 2" | "k = 3" by linarith
  then show "slots xs v ! k = [xs ! (v * 4), xs ! (v * 4 + 1), xs ! (v * 4 + 2), xs ! (v * 4 + 3)] ! k"
    using slots_nth[OF assms k] by cases simp_all
qed

lemma normalizeVertex_length: "length (normalizeVertex acc i cw) = length cw"
  by (simp add: normalizeVertex_eq)

lemma slots_upd4_same:
  assumes "v * 4 + 4 \<le> length cw"
  shows "slots (cw[v * 4 := a, v * 4 + 1 := b, v * 4 + 2 := c, v * 4 + 3 := d]) v = [a, b, c, d]"
proof -
  have s0: "slots (xs[v * 4 := y]) v = (slots xs v)[0 := y]" for xs :: "'a list" and y
    using slots_update_same[of 0 xs v y] by simp
  have s1: "slots (xs[v * 4 + 1 := y]) v = (slots xs v)[1 := y]" for xs :: "'a list" and y
    using slots_update_same[of 1 xs v y] by simp
  have s2: "slots (xs[v * 4 + 2 := y]) v = (slots xs v)[2 := y]" for xs :: "'a list" and y
    using slots_update_same[of 2 xs v y] by simp
  have s3: "slots (xs[v * 4 + 3 := y]) v = (slots xs v)[3 := y]" for xs :: "'a list" and y
    using slots_update_same[of 3 xs v y] by simp
  have "slots (cw[v * 4 := a, v * 4 + 1 := b, v * 4 + 2 := c, v * 4 + 3 := d]) v
          = (slots cw v)[0 := a, 1 := b, 2 := c, 3 := d]"
    by (simp only: s0 s1 s2 s3)
  also have "\<dots> = [a, b, c, d]"
    unfolding slots_eq4[OF assms] by (simp add: eval_nat_numeral)
  finally show ?thesis .
qed

lemma slots_upd4_other:
  assumes "v \<noteq> u"
  shows "slots (cw[u * 4 := a, u * 4 + 1 := b, u * 4 + 2 := c, u * 4 + 3 := d]) v = slots cw v"
proof -
  have s0: "slots (xs[u * 4 := y]) v = slots xs v" for xs :: "'a list" and y
    using slots_update_other[OF assms, of 0 xs y] by simp
  have s1: "slots (xs[u * 4 + 1 := y]) v = slots xs v" for xs :: "'a list" and y
    using slots_update_other[OF assms, of 1 xs y] by simp
  have s2: "slots (xs[u * 4 + 2 := y]) v = slots xs v" for xs :: "'a list" and y
    using slots_update_other[OF assms, of 2 xs y] by simp
  have s3: "slots (xs[u * 4 + 3 := y]) v = slots xs v" for xs :: "'a list" and y
    using slots_update_other[OF assms, of 3 xs y] by simp
  show ?thesis by (simp only: s0 s1 s2 s3)
qed

lemma normalizeVertex_slots_same:
  assumes "v * 4 + 4 \<le> length cw"
  shows "slots (normalizeVertex acc v cw) v =
     (if totalOf acc v > 0
      then [stored acc v (v * 4), stored acc v (v * 4 + 1), stored acc v (v * 4 + 2),
            stored acc v (v * 4 + 3)]
      else slots cw v)"
  unfolding normalizeVertex_eq
  by (simp only: slots_upd4_same[OF assms] if_distrib[of "\<lambda>c. slots c v"] cong: if_cong)

lemma normalizeVertex_slots_other:
  assumes "v \<noteq> u"
  shows "slots (normalizeVertex acc u cw) v = slots cw v"
  unfolding normalizeVertex_eq
  by (simp only: slots_upd4_other[OF assms] if_distrib[of "\<lambda>c. slots c v"] if_cancel cong: if_cong)

lemma normalizeWeights_fold:
  "m \<le> n \<Longrightarrow> length cw = n * 4 \<Longrightarrow>
     length (fold (normalizeVertex acc) [0 ..< m] cw) = n * 4 \<and>
     (\<forall>v < n. slots (fold (normalizeVertex acc) [0 ..< m] cw) v =
        (if v < m \<and> totalOf acc v > 0
         then [stored acc v (v * 4), stored acc v (v * 4 + 1), stored acc v (v * 4 + 2),
               stored acc v (v * 4 + 3)]
         else slots cw v))"
proof (induction m)
  case 0
  then show ?case by simp
next
  case (Suc m)
  let ?c = "fold (normalizeVertex acc) [0 ..< m] cw"
  have ih: "length ?c = n * 4"
    "\<forall>v < n. slots ?c v =
        (if v < m \<and> totalOf acc v > 0
         then [stored acc v (v * 4), stored acc v (v * 4 + 1), stored acc v (v * 4 + 2),
               stored acc v (v * 4 + 3)]
         else slots cw v)"
    using Suc by simp_all
  have f: "fold (normalizeVertex acc) [0 ..< Suc m] cw = normalizeVertex acc m ?c" by simp
  have lm: "m * 4 + 4 \<le> length ?c" using Suc.prems(1) ih(1) by simp
  have "slots (normalizeVertex acc m ?c) v =
        (if v < Suc m \<and> totalOf acc v > 0
         then [stored acc v (v * 4), stored acc v (v * 4 + 1), stored acc v (v * 4 + 2),
               stored acc v (v * 4 + 3)]
         else slots cw v)" if v: "v < n" for v
  proof (cases "v = m")
    case True
    then show ?thesis using normalizeVertex_slots_same[OF lm, of acc] ih(2) v by simp
  next
    case False
    then show ?thesis using normalizeVertex_slots_other[OF False, of acc ?c] ih(2) v by auto
  qed
  then show ?case unfolding f by (simp add: normalizeVertex_length ih(1))
qed

lemma normalizeWeights_slots:
  assumes "v < n"
  shows "slots (normalizeWeights acc n) v =
     (if totalOf acc v > 0
      then [stored acc v (v * 4), stored acc v (v * 4 + 1), stored acc v (v * 4 + 2),
            stored acc v (v * 4 + 3)]
      else [0, 0, 0, 0])"
proof -
  have "slots (replicate (n * 4) (0::nat)) v = [0, 0, 0, 0]"
    using assms by (simp add: slots_replicate replicate_4)
  then show ?thesis
    using normalizeWeights_fold[of n n "replicate (n * 4) 0" acc] assms
    by (simp add: normalizeWeights_def)
qed

lemma normalizeWeights_length: "length (normalizeWeights acc n) = n * 4"
  using normalizeWeights_fold[of n n "replicate (n * 4) 0" acc]
  by (simp add: normalizeWeights_def)

lemma topInv_empty:
  assumes "topInv A I []" and "length A = 4" and "length I = 4"
  shows "A = [0, 0, 0, 0]"
proof -
  from assms(1) obtain rest where r: "mset (zip A I) + rest = replicate_mset 4 (0, 0)"
    unfolding topInv_def by auto
  have "size (mset (zip A I) + rest) = 4" unfolding r by simp
  then have "size rest = 0" using assms(2,3) by simp
  then have "rest = {#}" by simp
  then have m: "mset (zip A I) = replicate_mset 4 (0, 0)" using r by simp
  have "set (zip A I) = set_mset (mset (zip A I))" by simp
  also have "\<dots> = {(0, 0)}" unfolding m by simp
  finally have z: "set (zip A I) = {(0, 0)}" .
  have "A = map fst (zip A I)" using assms(2,3) by simp
  also have "\<dots> = map (\<lambda>_. 0) (zip A I)"
    by (rule map_cong[OF refl]) (simp add: z)
  also have "\<dots> = replicate 4 0" using assms(2,3) by (simp add: map_replicate_const)
  finally show ?thesis by (simp add: replicate_4)
qed

lemma totalOf_zero:
  assumes "v * 4 + 4 \<le> length acc" and "slots acc v = [0, 0, 0, 0]"
  shows "totalOf acc v = 0"
proof -
  have "[acc ! (v * 4), acc ! (v * 4 + 1), acc ! (v * 4 + 2), acc ! (v * 4 + 3)] = [0, 0, 0, 0]"
    using assms(2) unfolding slots_eq4[OF assms(1)] .
  then show ?thesis by (simp add: totalOf_def float32_zero)
qed

lemma normalized_sum:
  assumes l: "length acc = n * 4" and v: "v < n" and nn: "\<forall>x \<in> set (slots acc v). 0 \<le> x"
  shows "(0 < sum_list (slots acc v) \<longrightarrow>
            65533 \<le> sum_list (slots (normalizeWeights acc n) v) \<and>
            sum_list (slots (normalizeWeights acc n) v) \<le> 65537) \<and>
         (sum_list (slots acc v) = 0 \<longrightarrow> sum_list (slots (normalizeWeights acc n) v) = 0)"
proof -
  have la: "v * 4 + 4 \<le> length acc" using l v by simp
  have n4: "0 \<le> acc ! (v * 4)" "0 \<le> acc ! (v * 4 + 1)" "0 \<le> acc ! (v * 4 + 2)"
    "0 \<le> acc ! (v * 4 + 3)"
    using nn unfolding slots_eq4[OF la] by simp_all
  have sm: "sum_list (slots acc v)
              = acc ! (v * 4) + acc ! (v * 4 + 1) + acc ! (v * 4 + 2) + acc ! (v * 4 + 3)"
    unfolding slots_eq4[OF la] by simp
  have e: "sum_list [x0, x1, x2, x3] = x0 + x1 + x2 + x3" for x0 x1 x2 x3 :: nat by simp
  have r: "real UINT16_MAX = 65535" by (simp add: UINT16_MAX_def)
  have pos: "65533 \<le> sum_list (slots (normalizeWeights acc n) v) \<and>
            sum_list (slots (normalizeWeights acc n) v) \<le> 65537"
    if p: "0 < sum_list (slots acc v)"
  proof -
    have p': "0 < acc ! (v * 4) + acc ! (v * 4 + 1) + acc ! (v * 4 + 2) + acc ! (v * 4 + 3)"
      using p unfolding sm .
    note b = float_stored_bounds[OF n4 p' totalOf_def refl]
    have s: "slots (normalizeWeights acc n) v =
        [stored acc v (v * 4), stored acc v (v * 4 + 1), stored acc v (v * 4 + 2),
         stored acc v (v * 4 + 3)]"
      using normalizeWeights_slots[OF v, of acc] b(1) by simp
    have "65533 \<le> sum_list (slots (normalizeWeights acc n) v)"
      unfolding s e stored_def r by (rule b(2))
    moreover have "sum_list (slots (normalizeWeights acc n) v) \<le> 65537"
      unfolding s e stored_def r by (rule b(3))
    ultimately show ?thesis by simp
  qed
  have zero: "sum_list (slots (normalizeWeights acc n) v) = 0" if z: "sum_list (slots acc v) = 0"
  proof -
    have "acc ! (v * 4) = 0" "acc ! (v * 4 + 1) = 0" "acc ! (v * 4 + 2) = 0" "acc ! (v * 4 + 3) = 0"
      using z n4 unfolding sm by linarith+
    then have "slots acc v = [0, 0, 0, 0]" unfolding slots_eq4[OF la] by simp
    then have "totalOf acc v = 0" by (rule totalOf_zero[OF la])
    then have "slots (normalizeWeights acc n) v = [0, 0, 0, 0]"
      using normalizeWeights_slots[OF v, of acc] by simp
    then show ?thesis by simp
  qed
  show ?thesis using pos zero by blast
qed

lemma accumulateWeights_cong:
  assumes "\<forall>clusterID \<in> set clusterIDs.
             \<forall>w \<in> set (weights (clusters_at clusters clusterID)). f w = g w"
  shows "accumulateWeights f newIndices clusters clusterIDs n
           = accumulateWeights g newIndices clusters clusterIDs n"
proof -
  have inner: "(case QList_at (weights c) (int j) of
                   Inl e \<Rightarrow> Inl e
                 | Inr weight \<Rightarrow>
                     foreachE (storeWeight i (f weight))
                       (QMultiHash_values newIndices (indices c ! j)) s)
             = (case QList_at (weights c) (int j) of
                   Inl e \<Rightarrow> Inl e
                 | Inr weight \<Rightarrow>
                     foreachE (storeWeight i (g weight))
                       (QMultiHash_values newIndices (indices c ! j)) s)"
    if c: "\<forall>w \<in> set (weights c). f w = g w" for c :: Cluster and i j s
  proof (cases "j < length (weights c)")
    case True
    then have "f (weights c ! j) = g (weights c ! j)" using c by simp
    then show ?thesis using True by (simp add: QList_at_def)
  next
    case False
    then show ?thesis by (simp add: QList_at_def)
  qed
  have ac: "accumulateCluster f newIndices c i s = accumulateCluster g newIndices c i s"
    if c: "\<forall>w \<in> set (weights c). f w = g w" for c :: Cluster and i s
    unfolding accumulateCluster_def by (rule foreachE_cong_on) (rule inner[OF c])
  show ?thesis
    unfolding accumulateWeights_def
  proof (rule foreachE_cong_on)
    fix i s assume "i \<in> set [0 ..< length clusterIDs]"
    then have "clusterIDs ! i \<in> set clusterIDs" by simp
    then have "\<forall>w \<in> set (weights (clusters_at clusters (clusterIDs ! i))). f w = g w"
      using assms by blast
    then show "accumulateCluster f newIndices (clusters_at clusters (clusterIDs ! i)) (int i) s
             = accumulateCluster g newIndices (clusters_at clusters (clusterIDs ! i)) (int i) s"
      by (rule ac)
  qed
qed



lemma two_halves_stored: "normalizeWeights [1 / 2, 1 / 2, 0, 0] 1 = [32767, 32767, 0, 0]"
proof -
  let ?acc = "[1 / 2, 1 / 2, 0, 0] :: real list"
  have t: "totalOf ?acc 0 = 1" by (simp add: totalOf_def float32_one)
  have a: "uint16_of_float (16777215 / 512) = 32767"
    by (simp add: uint16_of_float_def)
  have b: "uint16_of_float ALMOST_HALF = 0"
    by (simp add: uint16_of_float_def ALMOST_HALF_def)
  have s0: "stored ?acc 0 0 = 32767"
    by (simp add: stored_def t UINT16_MAX_def float32_65535 float32_half_scaled
          float32_half_biased a)
  have s1: "stored ?acc 0 1 = 32767"
    by (simp add: stored_def t UINT16_MAX_def float32_65535 float32_half_scaled
          float32_half_biased a)
  have s2: "stored ?acc 0 2 = 0"
    by (simp add: stored_def t UINT16_MAX_def float32_65535 float32_zero float32_ALMOST_HALF b)
  have s3: "stored ?acc 0 3 = 0"
    by (simp add: stored_def t UINT16_MAX_def float32_65535 float32_zero float32_ALMOST_HALF b)
  have "normalizeWeights ?acc 1 = normalizeVertex ?acc 0 [0, 0, 0, 0]"
    by (simp add: normalizeWeights_def replicate_4)
  also have "\<dots> = [stored ?acc 0 0, stored ?acc 0 1, stored ?acc 0 2, stored ?acc 0 3]"
    by (simp add: normalizeVertex_eq t) (simp add: numeral_2_eq_2)
  finally show ?thesis unfolding s0 s1 s2 s3 .
qed

section \<open>Claims about the model order\<close>

text \<open>
  C3. For every connection graph, cyclic ones included, the ordering traversal returns
  when the fuel exceeds the number of models: the loop makes at most one round per
  model and the recursion of \<^verbatim>\<open>appendModelIDs\<close> is at most one call deeper than the
  number of models; every walk of \<^verbatim>\<open>getTopModelID\<close> makes at most one round more than
  there are models. The resulting order contains every model exactly once (so every
  model that lies on no cycle, too).
\<close>

theorem model_order_terminates_and_is_complete:
  assumes "length modelObjects < fuel"
  shows "(\<exists>s. orderModels fuel modelObjects clusters connections = Some s \<and>
             remainingModels s = {} \<and> distinct (modelIDs s) \<and>
             set (modelIDs s) = fst ` set modelObjects) \<and>
         length (snd (getTopModelID_loop parentMap (parseModels modelObjects) modelID []))
           \<le> Suc (length modelObjects)"
proof -
  from orderModels_total[OF assms, of clusters connections]
  have "\<exists>s. orderModels fuel modelObjects clusters connections = Some s \<and>
             remainingModels s = {} \<and> distinct (modelIDs s) \<and>
             set (modelIDs s) = fst ` set modelObjects"
    by blast
  moreover have "length (snd (getTopModelID_loop parentMap (parseModels modelObjects) modelID []))
           \<le> Suc (length modelObjects)"
    using getTopModelID_rounds[of parentMap "parseModels modelObjects" modelID]
    by (simp add: parseModels_def)
  ultimately show ?thesis by blast
qed

theorem model_order_terminates_and_is_complete_witness:
  "length [(''A'', ''a''), (''B'', ''b''), (''C'', ''c'')] < (4::nat) \<and>
   (\<exists>s. orderModels 4 [(''A'', ''a''), (''B'', ''b''), (''C'', ''c'')] ([] :: (QString \<times> unit) list)
           [(''B'', ''A''), (''A'', ''B''), (''C'', ''B'')] = Some s \<and>
        modelIDs s = [''A'', ''B'', ''C''] \<and>
        remainingModels s = {} \<and> distinct (modelIDs s) \<and>
        set (modelIDs s) = fst ` set [(''A'', ''a''), (''B'', ''b''), (''C'', ''c'')]) \<and>
   length (snd (getTopModelID_loop [(''A'', ''B''), (''B'', ''A'')]
                  (parseModels [(''A'', ''a''), (''B'', ''b''), (''C'', ''c'')]) ''A'' []))
     \<le> Suc (length [(''A'', ''a''), (''B'', ''b''), (''C'', ''c'')])"
proof -
  let ?mos = "[(''A'', ''a''), (''B'', ''b''), (''C'', ''c'')]"
  let ?cs = "[(''B'', ''A''), (''A'', ''B''), (''C'', ''B'')]"
  have h: "length ?mos < (4::nat)" by simp
  note t = model_order_terminates_and_is_complete[OF h, of "[] :: (QString \<times> unit) list" ?cs
      "[(''A'', ''B''), (''B'', ''A'')]" "''A''"]
  from t obtain s where s: "orderModels 4 ?mos ([] :: (QString \<times> unit) list) ?cs = Some s"
    and p: "remainingModels s = {}" "distinct (modelIDs s)" "set (modelIDs s) = fst ` set ?mos"
    by blast
  have "map_option modelIDs (orderModels 4 ?mos ([] :: (QString \<times> unit) list) ?cs)
          = Some [''A'', ''B'', ''C'']"
    by code_simp
  then have "modelIDs s = [''A'', ''B'', ''C'']" using s by simp
  then show ?thesis using h s p conjunct2[OF t] by blast
qed

section \<open>Claims about the joint hierarchy\<close>

text \<open>
  C1. For every geometry the extraction produces, the joints are ordered parents first:
  for every index \<open>i\<close> the parent index of joint \<open>i\<close> is at least \<open>-1\<close> (a root) and
  strictly less than \<open>i\<close>. The extraction returns whenever the fuel exceeds the
  number of models.
\<close>

theorem joints_parent_before_child:
  assumes "length modelObjects < fuel"
  shows "\<exists>g. extractJoints fuel modelObjects clusters connections freeJoints = Some g \<and>
           (\<forall>i < length (joints g).
              - 1 \<le> FBXJoint.parentIndex (joints g ! i) \<and>
              FBXJoint.parentIndex (joints g ! i) < int i)"
proof -
  from extractJoints_total[OF assms, of clusters connections freeJoints]
  obtain s g where g: "extractJoints fuel modelObjects clusters connections freeJoints = Some g"
    and jf: "jointsFrom freeJoints (models (s::Reader)) (modelIDs s) g"
    by blast
  have "okParents (joints g)" using jf by (simp add: jointsFrom_def)
  then show ?thesis using g by (auto simp: okParents_def)
qed

theorem joints_parent_before_child_witness:
  "length [(''A'', ''hips''), (''B'', ''spine''), (''C'', ''hips''), (''D'', ''leg'')] < (5::nat) \<and>
   (\<exists>g. extractJoints 5 [(''A'', ''hips''), (''B'', ''spine''), (''C'', ''hips''), (''D'', ''leg'')]
          ([] :: (QString \<times> unit) list) [(''B'', ''A''), (''C'', ''B''), (''D'', ''B'')] [''spine'']
        = Some g \<and> length (joints g) = 4 \<and>
        (\<forall>i < length (joints g).
              - 1 \<le> FBXJoint.parentIndex (joints g ! i) \<and>
              FBXJoint.parentIndex (joints g ! i) < int i))"
proof -
  let ?mos = "[(''A'', ''hips''), (''B'', ''spine''), (''C'', ''hips''), (''D'', ''leg'')]"
  let ?cs = "[(''B'', ''A''), (''C'', ''B''), (''D'', ''B'')]"
  have h: "length ?mos < (5::nat)" by simp
  from joints_parent_before_child[OF h, of "[] :: (QString \<times> unit) list" ?cs "[''spine'']"]
  obtain g where g: "extractJoints 5 ?mos ([] :: (QString \<times> unit) list) ?cs [''spine''] = Some g"
    and p: "\<forall>i < length (joints g).
              - 1 \<le> FBXJoint.parentIndex (joints g ! i) \<and>
              FBXJoint.parentIndex (joints g ! i) < int i"
    by blast
  have "map_option (length \<circ> joints)
          (extractJoints 5 ?mos ([] :: (QString \<times> unit) list) ?cs [''spine'']) = Some 4"
    by code_simp
  then have "length (joints g) = 4" using g by simp
  then show ?thesis using h g p by blast
qed

text \<open>
  C5, as the code has it. For every joint, the lineage is the chain of the joint itself
  followed by all its ancestors (by parent index, up to a root), cut immediately after
  the last entry of the chain that is flagged free; when neither the joint nor any
  ancestor is free the lineage is empty.
\<close>

theorem freeLineage_cut_after_last_free:
  assumes "length modelObjects < fuel"
  shows "\<exists>g. extractJoints fuel modelObjects clusters connections freeJoints = Some g \<and>
           (\<forall>i < length (joints g).
              freeLineage (joints g ! i)
                = cutAfterLastFree (\<lambda>k. isFree (joints g ! nat k))
                    (int i # ancestors (joints g) i (FBXJoint.parentIndex (joints g ! i))) \<and>
              FBXJoint.parentIndex (joints g ! nat (last
                    (int i # ancestors (joints g) i (FBXJoint.parentIndex (joints g ! i))))) = - 1 \<and>
              ((\<forall>k \<in> set (int i # ancestors (joints g) i (FBXJoint.parentIndex (joints g ! i))).
                   \<not> isFree (joints g ! nat k))
                 \<longrightarrow> freeLineage (joints g ! i) = []))"
proof -
  from extractJoints_total[OF assms, of clusters connections freeJoints]
  obtain s g where g: "extractJoints fuel modelObjects clusters connections freeJoints = Some g"
    and jf: "jointsFrom freeJoints (models (s::Reader)) (modelIDs s) g"
    by blast
  have ok: "okParents (joints g)" using jf by (simp add: jointsFrom_def)
  have "freeLineage (joints g ! i)
                = cutAfterLastFree (\<lambda>k. isFree (joints g ! nat k))
                    (int i # ancestors (joints g) i (FBXJoint.parentIndex (joints g ! i))) \<and>
              FBXJoint.parentIndex (joints g ! nat (last
                    (int i # ancestors (joints g) i (FBXJoint.parentIndex (joints g ! i))))) = - 1 \<and>
              ((\<forall>k \<in> set (int i # ancestors (joints g) i (FBXJoint.parentIndex (joints g ! i))).
                   \<not> isFree (joints g ! nat k))
                 \<longrightarrow> freeLineage (joints g ! i) = [])"
    if i: "i < length (joints g)" for i
  proof -
    let ?p = "FBXJoint.parentIndex (joints g ! i)"
    have a: "freeLineage (joints g ! i) = lineageOf (joints g) i"
      using jf i unfolding jointsFrom_def by blast
    have b: "- 1 \<le> ?p" "?p < int i" using ok i by (simp_all add: okParents_def)
    have "?p < int (length (joints g))" using b i by simp
    from ancestors_root[OF ok b this, of "int i"]
    have c: "FBXJoint.parentIndex (joints g ! nat (last (int i # ancestors (joints g) i ?p))) = - 1"
      by simp
    show ?thesis
      using a c cut_none[of "int i # ancestors (joints g) i ?p" "\<lambda>k. isFree (joints g ! nat k)"]
      by (simp add: lineageOf_def)
  qed
  then show ?thesis using g by blast
qed

theorem freeLineage_cut_after_last_free_witness:
  "length [(''A'', ''hips''), (''B'', ''spine''), (''C'', ''hips''), (''D'', ''leg'')] < (5::nat) \<and>
   (\<exists>g. extractJoints 5 [(''A'', ''hips''), (''B'', ''spine''), (''C'', ''hips''), (''D'', ''leg'')]
          ([] :: (QString \<times> unit) list) [(''B'', ''A''), (''C'', ''B''), (''D'', ''B'')] [''spine'']
        = Some g \<and> map freeLineage (joints g) = [[], [1], [2, 1], [3, 1]] \<and>
        (\<forall>i < length (joints g).
              freeLineage (joints g ! i)
                = cutAfterLastFree (\<lambda>k. isFree (joints g ! nat k))
                    (int i # ancestors (joints g) i (FBXJoint.parentIndex (joints g ! i))) \<and>
              FBXJoint.parentIndex (joints g ! nat (last
                    (int i # ancestors (joints g) i (FBXJoint.parentIndex (joints g ! i))))) = - 1 \<and>
              ((\<forall>k \<in> set (int i # ancestors (joints g) i (FBXJoint.parentIndex (joints g ! i))).
                   \<not> isFree (joints g ! nat k))
                 \<longrightarrow> freeLineage (joints g ! i) = [])))"
proof -
  let ?mos = "[(''A'', ''hips''), (''B'', ''spine''), (''C'', ''hips''), (''D'', ''leg'')]"
  let ?cs = "[(''B'', ''A''), (''C'', ''B''), (''D'', ''B'')]"
  have h: "length ?mos < (5::nat)" by simp
  from freeLineage_cut_after_last_free[OF h, of "[] :: (QString \<times> unit) list" ?cs "[''spine'']"]
  obtain g where g: "extractJoints 5 ?mos ([] :: (QString \<times> unit) list) ?cs [''spine''] = Some g"
    and p: "\<forall>i < length (joints g).
              freeLineage (joints g ! i)
                = cutAfterLastFree (\<lambda>k. isFree (joints g ! nat k))
                    (int i # ancestors (joints g) i (FBXJoint.parentIndex (joints g ! i))) \<and>
              FBXJoint.parentIndex (joints g ! nat (last
                    (int i # ancestors (joints g) i (FBXJoint.parentIndex (joints g ! i))))) = - 1 \<and>
              ((\<forall>k \<in> set (int i # ancestors (joints g) i (FBXJoint.parentIndex (joints g ! i))).
                   \<not> isFree (joints g ! nat k))
                 \<longrightarrow> freeLineage (joints g ! i) = [])"
    by blast
  have "map_option (map freeLineage \<circ> joints)
          (extractJoints 5 ?mos ([] :: (QString \<times> unit) list) ?cs [''spine''])
          = Some [[], [1], [2, 1], [3, 1]]"
    by code_simp
  then have m: "map freeLineage (joints g) = [[], [1], [2, 1], [3, 1]]" using g by simp
  show ?thesis by (intro conjI exI[of _ g]) (rule h g m p)+
qed

text \<open>
  C5 as stated fails: a single model that is not free has no free entry in its chain,
  and its lineage is empty, not the joint itself (\<open>[0]\<close>).
\<close>

theorem freeLineage_keeps_self_counterexample:
  "map_option (map freeLineage \<circ> joints)
     (extractJoints 2 [(''A'', ''hips'')] ([] :: (QString \<times> unit) list) [] []) = Some [[]] \<and>
   map_option (map freeLineage \<circ> joints)
     (extractJoints 2 [(''A'', ''hips'')] ([] :: (QString \<times> unit) list) [] []) \<noteq> Some [[0]]"
  by code_simp

text \<open>
  C10. After the joint loop, the name index maps the name of the joint at position \<open>i\<close>
  to the one-based position \<open>i + 1\<close>, for every joint that is the last one of its name:
  where two models share a name the later position has replaced the earlier one.
\<close>

theorem jointIndices_one_based:
  assumes "length modelObjects < fuel"
  shows "\<exists>g. extractJoints fuel modelObjects clusters connections freeJoints = Some g \<and>
           (\<forall>i < length (joints g).
              (\<forall>j. i < j \<and> j < length (joints g)
                    \<longrightarrow> FBXJoint.name (joints g ! j) \<noteq> FBXJoint.name (joints g ! i))
              \<longrightarrow> jointIndices g (FBXJoint.name (joints g ! i)) = Some (int i + 1))"
proof -
  from extractJoints_total[OF assms, of clusters connections freeJoints]
  obtain s g where g: "extractJoints fuel modelObjects clusters connections freeJoints = Some g"
    and jf: "jointsFrom freeJoints (models (s::Reader)) (modelIDs s) g"
    by blast
  have "\<forall>i < length (joints g).
              (\<forall>j. i < j \<and> j < length (joints g)
                    \<longrightarrow> FBXJoint.name (joints g ! j) \<noteq> FBXJoint.name (joints g ! i))
              \<longrightarrow> jointIndices g (FBXJoint.name (joints g ! i)) = Some (int i + 1)"
    using jf unfolding jointsFrom_def by blast
  then show ?thesis using g by blast
qed

theorem jointIndices_one_based_witness:
  "length [(''A'', ''hips''), (''B'', ''spine''), (''C'', ''hips''), (''D'', ''leg'')] < (5::nat) \<and>
   (\<exists>g. extractJoints 5 [(''A'', ''hips''), (''B'', ''spine''), (''C'', ''hips''), (''D'', ''leg'')]
          ([] :: (QString \<times> unit) list) [(''B'', ''A''), (''C'', ''B''), (''D'', ''B'')] [''spine'']
        = Some g \<and>
        map FBXJoint.name (joints g) = [''hips'', ''spine'', ''leg'', ''hips''] \<and>
        map (jointIndices g) [''hips'', ''spine'', ''leg''] = [Some 4, Some 2, Some 3] \<and>
        (\<forall>i < length (joints g).
              (\<forall>j. i < j \<and> j < length (joints g)
                    \<longrightarrow> FBXJoint.name (joints g ! j) \<noteq> FBXJoint.name (joints g ! i))
              \<longrightarrow> jointIndices g (FBXJoint.name (joints g ! i)) = Some (int i + 1)))"
proof -
  let ?mos = "[(''A'', ''hips''), (''B'', ''spine''), (''C'', ''hips''), (''D'', ''leg'')]"
  let ?cs = "[(''B'', ''A''), (''C'', ''B''), (''D'', ''B'')]"
  have h: "length ?mos < (5::nat)" by simp
  from jointIndices_one_based[OF h, of "[] :: (QString \<times> unit) list" ?cs "[''spine'']"]
  obtain g where g: "extractJoints 5 ?mos ([] :: (QString \<times> unit) list) ?cs [''spine''] = Some g"
    and p: "\<forall>i < length (joints g).
              (\<forall>j. i < j \<and> j < length (joints g)
                    \<longrightarrow> FBXJoint.name (joints g ! j) \<noteq> FBXJoint.name (joints g ! i))
              \<longrightarrow> jointIndices g (FBXJoint.name (joints g ! i)) = Some (int i + 1)"
    by blast
  have "map_option (map FBXJoint.name \<circ> joints)
          (extractJoints 5 ?mos ([] :: (QString \<times> unit) list) ?cs [''spine''])
          = Some [''hips'', ''spine'', ''leg'', ''hips'']"
    by code_simp
  then have a: "map FBXJoint.name (joints g) = [''hips'', ''spine'', ''leg'', ''hips'']"
    using g by simp
  have "map_option (\<lambda>g. map (jointIndices g) [''hips'', ''spine'', ''leg''])
          (extractJoints 5 ?mos ([] :: (QString \<times> unit) list) ?cs [''spine''])
          = Some [Some 4, Some 2, Some 3]"
    by code_simp
  then have b: "map (jointIndices g) [''hips'', ''spine'', ''leg''] = [Some 4, Some 2, Some 3]"
    using g by simp
  show ?thesis by (intro conjI exI[of _ g]) (rule h g a b p)+
qed

section \<open>Claim about the cluster reparenting\<close>

text \<open>
  C4. The claim: a model with a deformer and cluster below it, whose parent is a model,
  gets the top of the cluster's joint as its parent. In the source the guard
  \<^verbatim>\<open>isARootNode\<close> tests \<^verbatim>\<open>modelIDs\<close>, which is still empty during the pass, so every
  model counts as a root and no entry is ever replaced. Here \<open>B\<close> is a child of the
  model \<open>A\<close>, has the deformer \<open>D\<close> with the cluster \<open>C\<close>, whose joint \<open>J\<close> is its own
  top; after the pass the parent of \<open>B\<close> is still \<open>A\<close>.
\<close>

theorem cluster_reparenting_skipped:
  "getTopModelID
     (connParentMap (connect (parseModels [(''A'', ''a''), (''B'', ''b''), (''J'', ''j'')])
        [(''B'', ''A''), (''D'', ''B''), (''C'', ''D''), (''J'', ''C'')]))
     (parseModels [(''A'', ''a''), (''B'', ''b''), (''J'', ''j'')])
     (QMultiMap_value
        (connChildMap (connect (parseModels [(''A'', ''a''), (''B'', ''b''), (''J'', ''j'')])
           [(''B'', ''A''), (''D'', ''B''), (''C'', ''D''), (''J'', ''C'')])) ''C'') = ''J'' \<and>
   firstClusterID
     (connChildMap (connect (parseModels [(''A'', ''a''), (''B'', ''b''), (''J'', ''j'')])
        [(''B'', ''A''), (''D'', ''B''), (''C'', ''D''), (''J'', ''C'')]))
     [(''C'', ())] ''B'' = Some ''C'' \<and>
   QMultiMap_values
     (connParentMap (prepareModels [(''C'', ())]
        (connect (parseModels [(''A'', ''a''), (''B'', ''b''), (''J'', ''j'')])
           [(''B'', ''A''), (''D'', ''B''), (''C'', ''D''), (''J'', ''C'')]))) ''B'' = [''A'']"
  by code_simp

section \<open>Claims about meshes\<close>

text \<open>
  C7. For a mesh with no associated skin cluster (no cluster two steps below it in
  the child map), let \<open>j\<close> be the first position of the owning model in the ordered
  model list, or \<open>0\<close> when the owning model is not in the list. When joint \<open>j\<close> exists
  the mesh is bound with exactly one cluster, of joint index \<open>j\<close>; when it does not
  (there is no joint at all), the read of \<^verbatim>\<open>geometry.joints[j]\<close> is out of range and
  the mesh is not output. And whatever the clusters, a mesh that is output has at
  least one cluster.
\<close>

theorem unskinned_mesh_bound_to_owning_model:
  "((\<forall>childID \<in> set (QMultiMap_values childMap meshKey).
       \<forall>clusterID \<in> set (QMultiMap_values childMap childID). \<not> QHash_contains clusters clusterID)
   \<longrightarrow> (let modelID = (if QHash_contains ms meshKey then meshKey
                         else QMultiMap_value parentMap meshKey);
             position = QVector_indexOf orderedIDs modelID;
             j = (if position = - 1 then 0 else position)
         in (if j < int numJoints
             then bindMesh ms clusters parentMap childMap orderedIDs numJoints meshKey []
                    = Inr ([], [\<lparr>jointIndex = j\<rparr>])
             else bindMesh ms clusters parentMap childMap orderedIDs numJoints meshKey []
                    = Inl IndexOutOfRange) \<and>
            (modelID \<in> set orderedIDs \<longrightarrow>
                0 \<le> j \<and> nat j < length orderedIDs \<and> orderedIDs ! nat j = modelID \<and>
                (\<forall>k < nat j. orderedIDs ! k \<noteq> modelID)) \<and>
            (modelID \<notin> set orderedIDs \<longrightarrow> j = 0))) \<and>
   (bindMesh ms clusters parentMap childMap orderedIDs numJoints meshKey meshClusters = Inr (clusterIDs, cs)
   \<longrightarrow> cs \<noteq> [])"
proof (rule conjI)
  define modelID where "modelID = (if QHash_contains ms meshKey then meshKey
                         else QMultiMap_value parentMap meshKey)"
  define j where "j = (if QVector_indexOf orderedIDs modelID = - 1 then 0
                       else QVector_indexOf orderedIDs modelID)"
  have p: "modelID \<in> set orderedIDs \<longrightarrow>
              0 \<le> j \<and> nat j < length orderedIDs \<and> orderedIDs ! nat j = modelID \<and>
              (\<forall>k < nat j. orderedIDs ! k \<noteq> modelID)"
  proof
    assume m: "modelID \<in> set orderedIDs"
    then have "QVector_indexOf orderedIDs modelID \<noteq> - 1"
      using QVector_indexOf_first(1)[OF m] by simp
    then have "j = QVector_indexOf orderedIDs modelID" by (simp add: j_def)
    then show "0 \<le> j \<and> nat j < length orderedIDs \<and> orderedIDs ! nat j = modelID \<and>
              (\<forall>k < nat j. orderedIDs ! k \<noteq> modelID)"
      using QVector_indexOf_first[OF m] by simp
  qed
  have q: "modelID \<notin> set orderedIDs \<longrightarrow> j = 0"
    by (simp add: j_def QVector_indexOf_absent)
  have nonneg: "0 \<le> j"
  proof (cases "modelID \<in> set orderedIDs")
    case True
    then show ?thesis using p by simp
  next
    case False
    then show ?thesis using q by simp
  qed
  show "(\<forall>childID \<in> set (QMultiMap_values childMap meshKey).
       \<forall>clusterID \<in> set (QMultiMap_values childMap childID). \<not> QHash_contains clusters clusterID)
   \<longrightarrow> (let modelID = (if QHash_contains ms meshKey then meshKey
                         else QMultiMap_value parentMap meshKey);
             position = QVector_indexOf orderedIDs modelID;
             j = (if position = - 1 then 0 else position)
         in (if j < int numJoints
             then bindMesh ms clusters parentMap childMap orderedIDs numJoints meshKey []
                    = Inr ([], [\<lparr>jointIndex = j\<rparr>])
             else bindMesh ms clusters parentMap childMap orderedIDs numJoints meshKey []
                    = Inl IndexOutOfRange) \<and>
            (modelID \<in> set orderedIDs \<longrightarrow>
                0 \<le> j \<and> nat j < length orderedIDs \<and> orderedIDs ! nat j = modelID \<and>
                (\<forall>k < nat j. orderedIDs ! k \<noteq> modelID)) \<and>
            (modelID \<notin> set orderedIDs \<longrightarrow> j = 0))"
  proof
    assume none: "\<forall>childID \<in> set (QMultiMap_values childMap meshKey).
       \<forall>clusterID \<in> set (QMultiMap_values childMap childID). \<not> QHash_contains clusters clusterID"
    have f: "filter (QHash_contains clusters)
            (concat (map (QMultiMap_values childMap) (QMultiMap_values childMap meshKey))) = []"
      using none by (auto simp: filter_empty_conv)
    have s1: "appendClusters childMap orderedIDs numJoints [] ([], []) = Inr ([], [])"
      by simp
    have b: "bindMesh ms clusters parentMap childMap orderedIDs numJoints meshKey []
               = (case joints_at numJoints j of Inl e \<Rightarrow> Inl e
                  | Inr u \<Rightarrow> Inr ([], [\<lparr>jointIndex = j\<rparr>]))"
      unfolding bindMesh_def f Let_def modelID_def[symmetric] j_def[symmetric] s1
      by (simp only: sum.case prod.case list.size if_False if_True refl append_Nil list.sel
            less_numeral_extra not_less_zero FBXCluster.select_convs)
    have r: "if j < int numJoints
             then bindMesh ms clusters parentMap childMap orderedIDs numJoints meshKey []
                    = Inr ([], [\<lparr>jointIndex = j\<rparr>])
             else bindMesh ms clusters parentMap childMap orderedIDs numJoints meshKey []
                    = Inl IndexOutOfRange"
      unfolding b using nonneg by (simp add: joints_at_def)
    show "let modelID = (if QHash_contains ms meshKey then meshKey
                         else QMultiMap_value parentMap meshKey);
             position = QVector_indexOf orderedIDs modelID;
             j = (if position = - 1 then 0 else position)
         in (if j < int numJoints
             then bindMesh ms clusters parentMap childMap orderedIDs numJoints meshKey []
                    = Inr ([], [\<lparr>jointIndex = j\<rparr>])
             else bindMesh ms clusters parentMap childMap orderedIDs numJoints meshKey []
                    = Inl IndexOutOfRange) \<and>
            (modelID \<in> set orderedIDs \<longrightarrow>
                0 \<le> j \<and> nat j < length orderedIDs \<and> orderedIDs ! nat j = modelID \<and>
                (\<forall>k < nat j. orderedIDs ! k \<noteq> modelID)) \<and>
            (modelID \<notin> set orderedIDs \<longrightarrow> j = 0)"
      unfolding Let_def modelID_def[symmetric] j_def[symmetric]
      using r p q by (intro conjI)
  qed
  show "bindMesh ms clusters parentMap childMap orderedIDs numJoints meshKey meshClusters = Inr (clusterIDs, cs)
   \<longrightarrow> cs \<noteq> []"
  proof
    assume a: "bindMesh ms clusters parentMap childMap orderedIDs numJoints meshKey meshClusters
                 = Inr (clusterIDs, cs)"
    define found where "found = appendClusters childMap orderedIDs numJoints
                (filter (QHash_contains clusters)
                   (concat (map (QMultiMap_values childMap)
                              (QMultiMap_values childMap meshKey))))
                ([], meshClusters)"
    show "cs \<noteq> []"
    proof (cases found)
      case (Inl e)
      then show ?thesis
        using a unfolding bindMesh_def Let_def found_def[symmetric] by simp
    next
      case (Inr r)
      obtain ids cs0 where r: "r = (ids, cs0)" by (cases r)
      define bound where "bound = (if cs0 = []
                           then cs0 @ [\<lparr>jointIndex =
                                  (if QVector_indexOf orderedIDs modelID = - 1 then 0
                                   else QVector_indexOf orderedIDs modelID)\<rparr>]
                           else cs0)"
      define reads where "reads = (if 1 < length ids
                       then foreachE (\<lambda>i u. case QList_at bound (int i) of
                                                Inl e \<Rightarrow> Inl e
                                              | Inr fbxCluster \<Rightarrow>
                                                  joints_at numJoints (jointIndex fbxCluster))
                              [0 ..< length ids] ()
                       else joints_at numJoints (jointIndex (hd bound)))"
      have ne: "bound \<noteq> []" by (simp add: bound_def)
      have "bindMesh ms clusters parentMap childMap orderedIDs numJoints meshKey meshClusters
              = (case reads of Inl e \<Rightarrow> Inl e | Inr u \<Rightarrow> Inr (ids, bound))"
        unfolding bindMesh_def Let_def found_def[symmetric] Inr r modelID_def[symmetric]
          bound_def reads_def
        by (simp only: sum.case prod.case)
      with a have "(case reads of Inl e \<Rightarrow> Inl e | Inr u \<Rightarrow> Inr (ids, bound)) = Inr (clusterIDs, cs)"
        by simp
      then have "cs = bound" by (cases reads) simp_all
      then show ?thesis using ne by simp
    qed
  qed
qed

theorem unskinned_mesh_bound_to_owning_model_witness:
  "bindMesh (parseModels [(''root'', ''Hips''), (''model'', ''Body'')]) ([] :: (QString \<times> unit) list)
     [(''mesh'', ''model''), (''model'', ''root'')]
     [(''model'', ''mesh''), ([], ''root''), (''root'', ''model'')]
     [''root'', ''model''] 2 ''mesh'' [] = Inr ([], [\<lparr>jointIndex = 1\<rparr>]) \<and>
   [''root'', ''model''] ! nat 1 = ''model'' \<and>
   bindMesh (parseModels []) ([] :: (QString \<times> unit) list) [] [] [] 0 ''mesh'' []
     = Inl IndexOutOfRange"
proof -
  let ?cm = "[(''model'', ''mesh''), ([], ''root''), (''root'', ''model'')]"
  let ?pm = "[(''mesh'', ''model''), (''model'', ''root'')]"
  let ?ms = "parseModels [(''root'', ''Hips''), (''model'', ''Body'')]"
  have h: "\<forall>childID \<in> set (QMultiMap_values ?cm ''mesh'').
       \<forall>clusterID \<in> set (QMultiMap_values ?cm childID).
          \<not> QHash_contains ([] :: (QString \<times> unit) list) clusterID"
    by (simp add: QHash_contains_def)
  have m: "(if QHash_contains ?ms ''mesh'' then ''mesh'' else QMultiMap_value ?pm ''mesh'') = ''model''"
    by code_simp
  have i: "QVector_indexOf [''root'', ''model''] ''model'' = 1" by code_simp
  note t = unskinned_mesh_bound_to_owning_model[of ?cm "''mesh''" "[] :: (QString \<times> unit) list"
      ?ms ?pm "[''root'', ''model'']" 2 "[]" "[]" "[]"]
  from mp[OF conjunct1[OF t] h]
  have a: "bindMesh ?ms ([] :: (QString \<times> unit) list) ?pm ?cm [''root'', ''model''] 2 ''mesh'' []
            = Inr ([], [\<lparr>jointIndex = 1\<rparr>])"
    unfolding Let_def m i by simp
  have h0: "\<forall>childID \<in> set (QMultiMap_values [] ''mesh'').
       \<forall>clusterID \<in> set (QMultiMap_values [] childID).
          \<not> QHash_contains ([] :: (QString \<times> unit) list) clusterID"
    by (simp add: QMultiMap_values_def)
  have i0: "QVector_indexOf [] (if QHash_contains (parseModels []) ''mesh'' then ''mesh''
                                else QMultiMap_value [] ''mesh'') = - 1"
    by (simp add: QVector_indexOf_def)
  note t0 = unskinned_mesh_bound_to_owning_model[of "[]" "''mesh''" "[] :: (QString \<times> unit) list"
      "parseModels []" "[]" "[]" 0 "[]" "[]" "[]"]
  from mp[OF conjunct1[OF t0] h0]
  have b: "bindMesh (parseModels []) ([] :: (QString \<times> unit) list) [] [] [] 0 ''mesh'' []
            = Inl IndexOutOfRange"
    unfolding Let_def i0 by simp
  have c: "[''root'', ''model''] ! nat 1 = ''model''" by simp
  show ?thesis by (intro conjI) (rule a c b)+
qed

section \<open>Claim about malformed node trees\<close>

text \<open>
  C9. The claim: no node tree makes the extraction fail, short property lists
  included. In the source the author is read with \<^verbatim>\<open>properties.at(0)\<close> without a test of
  the size (the application name, next to it, is read only after
  \<^verbatim>\<open>properties.size() >= 5\<close>): an \<^verbatim>\<open>Author\<close> node with no property ends the scan with a
  read out of range, while a short \<^verbatim>\<open>P\<close> node is skipped.
\<close>

theorem author_without_property_fails:
  "extractHeader toString isApplicationName
     (FBXNode [] []
        [FBXNode ''FBXHeaderExtension'' []
           [FBXNode ''SceneInfo'' []
              [FBXNode ''MetaData'' [] [FBXNode ''Author'' [] []]]]])
     = Inl IndexOutOfRange \<and>
   extractHeader toString isApplicationName
     (FBXNode [] []
        [FBXNode ''FBXHeaderExtension'' []
           [FBXNode ''SceneInfo'' []
              [FBXNode ''Properties70'' [] [FBXNode ''P'' [] []]]]])
     = Inr \<lparr>author = [], applicationName = []\<rparr>"
  by (simp add: extractHeader_def scanHeaderExtension_def scanSceneInfo_def scanMetaData_def
      scanProperties70_def QList_at_def)

section \<open>Claims about skin weights\<close>




text \<open>
  C2 (amended). For a well-formed multi-cluster skin whose narrowed weights are not
  negative and within the normal range, accumulation and normalization return,
  \<^verbatim>\<open>clusterWeights\<close> has four entries per vertex, and for every vertex: the sum of the
  four accumulators is not negative; when it is positive, the four stored weights
  sum to a value from 65533 to 65537; when it is zero, and in particular when no
  cluster influenced the vertex, they sum to 0.
\<close>

theorem normalized_weights_sum_near_65535:
  assumes "wellFormedSkin float32 newIndices clusters clusterIDs numVertices"
    and "normalRange clusters clusterIDs"
  shows "\<exists>acc idx.
           accumulateWeights float32 newIndices clusters clusterIDs numVertices = Inr (acc, idx) \<and>
           skinWeights newIndices clusters clusterIDs numVertices
             = Inr (idx, normalizeWeights acc numVertices) \<and>
           length (normalizeWeights acc numVertices) = numVertices * WEIGHTS_PER_VERTEX \<and>
           (\<forall>v < numVertices.
              0 \<le> sum_list (slots acc v) \<and>
              (0 < sum_list (slots acc v) \<longrightarrow>
                 65533 \<le> sum_list (slots (normalizeWeights acc numVertices) v) \<and>
                 sum_list (slots (normalizeWeights acc numVertices) v) \<le> 65537) \<and>
              (sum_list (slots acc v) = 0 \<longrightarrow>
                 sum_list (slots (normalizeWeights acc numVertices) v) = 0) \<and>
              (influences (fannedTriples float32 newIndices clusters clusterIDs) v = [] \<longrightarrow>
                 sum_list (slots (normalizeWeights acc numVertices) v) = 0))"
proof -
  from accumulateWeights_inv[OF assms(1)]
  obtain st where r: "accumulateWeights float32 newIndices clusters clusterIDs numVertices = Inr st"
    and wf: "wfState st numVertices"
    and inv: "\<forall>v < numVertices.
                vertexInv st v (influences (fannedTriples float32 newIndices clusters clusterIDs) v)"
    by blast
  obtain acc idx where st: "st = (acc, idx)" by (cases st)
  have ra: "accumulateWeights float32 newIndices clusters clusterIDs numVertices = Inr (acc, idx)"
    using r st by simp
  have l: "length acc = numVertices * 4" "length idx = numVertices * 4"
    using wf by (simp_all add: wfState_def st)
  have sk: "skinWeights newIndices clusters clusterIDs numVertices
             = Inr (idx, normalizeWeights acc numVertices)"
    by (simp add: skinWeights_def ra)
  have per: "0 \<le> sum_list (slots acc v) \<and>
              (0 < sum_list (slots acc v) \<longrightarrow>
                 65533 \<le> sum_list (slots (normalizeWeights acc numVertices) v) \<and>
                 sum_list (slots (normalizeWeights acc numVertices) v) \<le> 65537) \<and>
              (sum_list (slots acc v) = 0 \<longrightarrow>
                 sum_list (slots (normalizeWeights acc numVertices) v) = 0) \<and>
              (influences (fannedTriples float32 newIndices clusters clusterIDs) v = [] \<longrightarrow>
                 sum_list (slots (normalizeWeights acc numVertices) v) = 0)"
    if v: "v < numVertices" for v
  proof -
    have vi: "vertexInv (acc, idx) v
                (influences (fannedTriples float32 newIndices clusters clusterIDs) v)"
      using inv v st by simp
    then have nn: "\<forall>x \<in> set (slots acc v). 0 \<le> x"
      and ti: "topInv (slots acc v) (slots idx v)
                 (influences (fannedTriples float32 newIndices clusters clusterIDs) v)"
      by (simp_all add: vertexInv_def)
    note ns = normalized_sum[OF l(1) v nn]
    have p: "0 \<le> sum_list (slots acc v)" using nn by (simp add: sum_list_nonneg)
    have la: "v * 4 + 4 \<le> length acc" "v * 4 + 4 \<le> length idx" using l v by simp_all
    have e: "sum_list (slots (normalizeWeights acc numVertices) v) = 0"
      if "influences (fannedTriples float32 newIndices clusters clusterIDs) v = []"
    proof -
      have "slots acc v = [0, 0, 0, 0]"
        using ti that slots_length[OF la(1)] slots_length[OF la(2)]
        by (intro topInv_empty[of _ "slots idx v"]) simp_all
      then have "sum_list (slots acc v) = 0" by simp
      then show ?thesis using ns by simp
    qed
    show ?thesis using p ns e by blast
  qed
  show ?thesis
    by (intro exI[of _ acc] exI[of _ idx] conjI allI impI)
       (rule ra sk normalizeWeights_length conjunct1[OF per] | simp add: per)+
qed

theorem normalized_weights_sum_near_65535_witness:
  "accumulateWeights float32 [(0, 0)]
     [(''a'', \<lparr>indices = [0], weights = [1 / 4]\<rparr>), (''b'', \<lparr>indices = [0], weights = [3 / 4]\<rparr>)]
     [''a'', ''b''] 2
   = Inr ([1 / 4, 3 / 4, 0, 0, 0, 0, 0, 0], [0, 1, 0, 0, 0, 0, 0, 0]) \<and>
   skinWeights [(0, 0)]
     [(''a'', \<lparr>indices = [0], weights = [1 / 4]\<rparr>), (''b'', \<lparr>indices = [0], weights = [3 / 4]\<rparr>)]
     [''a'', ''b''] 2
   = Inr ([0, 1, 0, 0, 0, 0, 0, 0], normalizeWeights [1 / 4, 3 / 4, 0, 0, 0, 0, 0, 0] 2) \<and>
   65533 \<le> sum_list (slots (normalizeWeights [1 / 4, 3 / 4, 0, 0, 0, 0, 0, 0] 2) 0) \<and>
   sum_list (slots (normalizeWeights [1 / 4, 3 / 4, 0, 0, 0, 0, 0, 0] 2) 0) \<le> 65537 \<and>
   sum_list (slots (normalizeWeights [1 / 4, 3 / 4, 0, 0, 0, 0, 0, 0] 2) 1) = 0"
proof -
  let ?ni = "[(0, 0)] :: (int \<times> int) list"
  let ?cs = "[(''a'', \<lparr>indices = [0], weights = [1 / 4]\<rparr>), (''b'', \<lparr>indices = [0], weights = [3 / 4]\<rparr>)]"
  let ?ids = "[''a'', ''b'']"
  let ?A = "[1 / 4, 3 / 4, 0, 0, 0, 0, 0, 0] :: real list"
  have q: "float32 (1 / 4) = 1 / 4"
    by (rule float32_exact[of "- 2" _ "2 ^ 23"]) (simp_all add: powr_neg_numeral)
  have t: "float32 (3 / 4) = 3 / 4"
    by (rule float32_exact[of "- 1" _ "3 * 2 ^ 22"]) (simp_all add: powr_neg_numeral)
  have ca: "clusters_at ?cs ''a'' = \<lparr>indices = [0], weights = [1 / 4]\<rparr>"
    and cb: "clusters_at ?cs ''b'' = \<lparr>indices = [0], weights = [3 / 4]\<rparr>"
    by (simp_all add: clusters_at_def)
  have h: "wellFormedSkin float32 ?ni ?cs ?ids 2"
    unfolding wellFormedSkin_def by (simp add: ca cb q t FLT_MAX_def QMultiHash_values_def)
  have nr: "normalRange ?cs ?ids"
    unfolding normalRange_def by (simp add: ca cb q t)
  from normalized_weights_sum_near_65535[OF h nr]
  obtain acc idx where r: "accumulateWeights float32 ?ni ?cs ?ids 2 = Inr (acc, idx)"
    and sk: "skinWeights ?ni ?cs ?ids 2 = Inr (idx, normalizeWeights acc 2)"
    and p: "\<forall>v < 2.
              0 \<le> sum_list (slots acc v) \<and>
              (0 < sum_list (slots acc v) \<longrightarrow>
                 65533 \<le> sum_list (slots (normalizeWeights acc 2) v) \<and>
                 sum_list (slots (normalizeWeights acc 2) v) \<le> 65537) \<and>
              (sum_list (slots acc v) = 0 \<longrightarrow>
                 sum_list (slots (normalizeWeights acc 2) v) = 0) \<and>
              (influences (fannedTriples float32 ?ni ?cs ?ids) v = [] \<longrightarrow>
                 sum_list (slots (normalizeWeights acc 2) v) = 0)"
    by blast
  have "accumulateWeights float32 ?ni ?cs ?ids 2 = accumulateWeights (\<lambda>w. w) ?ni ?cs ?ids 2"
    by (rule accumulateWeights_cong) (simp add: ca cb q t)
  also have "\<dots> = Inr (?A, [0, 1, 0, 0, 0, 0, 0, 0])"
    by code_simp
  finally have e: "accumulateWeights float32 ?ni ?cs ?ids 2 = Inr (?A, [0, 1, 0, 0, 0, 0, 0, 0])" .
  from r e have a: "acc = ?A" and i: "idx = [0, 1, 0, 0, 0, 0, 0, 0]" by simp_all
  have pos: "0 < sum_list (slots ?A 0)" by (simp add: slots_def)
  have z: "sum_list (slots ?A 1) = 0" by (simp add: slots_def)
  have p0: "65533 \<le> sum_list (slots (normalizeWeights ?A 2) 0)"
    "sum_list (slots (normalizeWeights ?A 2) 0) \<le> 65537"
    using p[rule_format, of 0] pos unfolding a by simp_all
  have p1: "sum_list (slots (normalizeWeights ?A 2) 1) = 0"
    using p[rule_format, of 1] z unfolding a by simp
  show ?thesis
    by (intro conjI) (rule r[unfolded a i] sk[unfolded a i] p0 p1)+
qed

text \<open>
  The claim as stated fails for two clusters of weight \<open>0.5\<close> on one vertex: the total
  is \<open>1\<close>, the scaling factor \<open>65535\<close>, each product \<open>32767.5\<close>, and \<open>32767.5 + 0.499f\<close>
  rounds to \<open>32768 - 1 / 512\<close>, which truncates to \<open>32767\<close>; the stored weights sum to
  \<open>65534\<close>.
\<close>

theorem two_half_weights_sum_65534_counterexample:
  "skinWeights [(0, 0)]
     [(''a'', \<lparr>indices = [0], weights = [1 / 2]\<rparr>), (''b'', \<lparr>indices = [0], weights = [1 / 2]\<rparr>)]
     [''a'', ''b''] 1
   = Inr ([0, 1, 0, 0], [32767, 32767, 0, 0]) \<and>
   sum_list (slots [32767, 32767, 0, 0] 0) = (65534 :: nat)"
proof -
  let ?cs = "[(''a'', \<lparr>indices = [0], weights = [1 / 2]\<rparr>), (''b'', \<lparr>indices = [0], weights = [1 / 2]\<rparr>)]"
  have ca: "clusters_at ?cs ''a'' = \<lparr>indices = [0], weights = [1 / 2]\<rparr>"
    and cb: "clusters_at ?cs ''b'' = \<lparr>indices = [0], weights = [1 / 2]\<rparr>"
    by (simp_all add: clusters_at_def)
  have "accumulateWeights float32 [(0, 0)] ?cs [''a'', ''b''] 1
          = accumulateWeights (\<lambda>w. w) [(0, 0)] ?cs [''a'', ''b''] 1"
    by (rule accumulateWeights_cong) (simp add: ca cb float32_half)
  also have "\<dots> = Inr ([1 / 2, 1 / 2, 0, 0], [0, 1, 0, 0])"
    by code_simp
  finally have a: "accumulateWeights float32 [(0, 0)] ?cs [''a'', ''b''] 1
                     = Inr ([1 / 2, 1 / 2, 0, 0], [0, 1, 0, 0])" .
  have "skinWeights [(0, 0)] ?cs [''a'', ''b''] 1 = Inr ([0, 1, 0, 0], [32767, 32767, 0, 0])"
    unfolding skinWeights_def a two_halves_stored[symmetric] by simp
  moreover have "sum_list (slots [32767, 32767, 0, 0] 0) = (65534 :: nat)"
    by (simp add: slots_def)
  ultimately show ?thesis by (rule conjI)
qed

end
